theory Spec2Isabelle
  imports Complex_Main "HOL-Library.Word" "HOL-Library.List_Lexorder"
begin

section \<open>Python values used by the cipher\<close>

text \<open>
  A Python \<open>str\<close> is a sequence of Unicode code points; it is modelled as a list of
  natural numbers, so that \<open>length\<close> counts what Python's \<open>len\<close> counts. A \<open>bytes\<close>
  value is a list of 8-bit words. Python integers are \<open>int\<close>. Every exception the
  modelled code can raise is a constructor of \<open>error\<close>, and a function that can raise
  returns \<open>error + 'a\<close>.
\<close>

type_synonym pystr = "nat list"
type_synonym byte = "8 word"

datatype error =
    ValueError | IndexError | KeyError | ZeroDivisionError
  | UnicodeEncodeError | RuntimeError

definition cps :: "string \<Rightarrow> pystr" where
  "cps s = map of_char s"

subsection \<open>\<open>str.upper\<close>\<close>

text \<open>
  \<open>str.upper\<close> applies the full Unicode case mapping (Unicode 14.0, the tables of
  CPython 3.11). \<open>upper_runs\<close> lists the code points whose upper case is one code
  point, as arithmetic runs \<open>(first, last, stride, offset)\<close>; \<open>upper_special\<close> lists the
  code points whose upper case is two or three code points. Every other code point is
  its own upper case.
\<close>

definition upper_runs :: "(nat \<times> nat \<times> nat \<times> int) list" where
  "upper_runs = [
   (97, 122, 1, - 32), (181, 181, 1, 743), (224, 246, 1, - 32), (248, 254, 1, - 32),
   (255, 255, 1, 121), (257, 303, 2, - 1), (305, 305, 1, - 232), (307, 311, 2, - 1),
   (314, 328, 2, - 1), (331, 375, 2, - 1), (378, 382, 2, - 1), (383, 383, 1, - 300),
   (384, 384, 1, 195), (387, 389, 2, - 1), (392, 392, 1, - 1), (396, 396, 1, - 1),
   (402, 402, 1, - 1), (405, 405, 1, 97), (409, 409, 1, - 1), (410, 410, 1, 163),
   (414, 414, 1, 130), (417, 421, 2, - 1), (424, 424, 1, - 1), (429, 429, 1, - 1),
   (432, 432, 1, - 1), (436, 438, 2, - 1), (441, 441, 1, - 1), (445, 445, 1, - 1),
   (447, 447, 1, 56), (453, 453, 1, - 1), (454, 454, 1, - 2), (456, 456, 1, - 1),
   (457, 457, 1, - 2), (459, 459, 1, - 1), (460, 460, 1, - 2), (462, 476, 2, - 1),
   (477, 477, 1, - 79), (479, 495, 2, - 1), (498, 498, 1, - 1), (499, 499, 1, - 2),
   (501, 501, 1, - 1), (505, 543, 2, - 1), (547, 563, 2, - 1), (572, 572, 1, - 1),
   (575, 576, 1, 10815), (578, 578, 1, - 1), (583, 591, 2, - 1), (592, 592, 1, 10783),
   (593, 593, 1, 10780), (594, 594, 1, 10782), (595, 595, 1, - 210), (596, 596, 1, - 206),
   (598, 599, 1, - 205), (601, 601, 1, - 202), (603, 603, 1, - 203), (604, 604, 1, 42319),
   (608, 608, 1, - 205), (609, 609, 1, 42315), (611, 611, 1, - 207), (613, 613, 1, 42280),
   (614, 614, 1, 42308), (616, 616, 1, - 209), (617, 617, 1, - 211), (618, 618, 1, 42308),
   (619, 619, 1, 10743), (620, 620, 1, 42305), (623, 623, 1, - 211), (625, 625, 1, 10749),
   (626, 626, 1, - 213), (629, 629, 1, - 214), (637, 637, 1, 10727), (640, 640, 1, - 218),
   (642, 642, 1, 42307), (643, 643, 1, - 218), (647, 647, 1, 42282), (648, 648, 1, - 218),
   (649, 649, 1, - 69), (650, 651, 1, - 217), (652, 652, 1, - 71), (658, 658, 1, - 219),
   (669, 669, 1, 42261), (670, 670, 1, 42258), (837, 837, 1, 84), (881, 883, 2, - 1),
   (887, 887, 1, - 1), (891, 893, 1, 130), (940, 940, 1, - 38), (941, 943, 1, - 37),
   (945, 961, 1, - 32), (962, 962, 1, - 31), (963, 971, 1, - 32), (972, 972, 1, - 64),
   (973, 974, 1, - 63), (976, 976, 1, - 62), (977, 977, 1, - 57), (981, 981, 1, - 47),
   (982, 982, 1, - 54), (983, 983, 1, - 8), (985, 1007, 2, - 1), (1008, 1008, 1, - 86),
   (1009, 1009, 1, - 80), (1010, 1010, 1, 7), (1011, 1011, 1, - 116), (1013, 1013, 1, - 96),
   (1016, 1016, 1, - 1), (1019, 1019, 1, - 1), (1072, 1103, 1, - 32), (1104, 1119, 1, - 80),
   (1121, 1153, 2, - 1), (1163, 1215, 2, - 1), (1218, 1230, 2, - 1), (1231, 1231, 1, - 15),
   (1233, 1327, 2, - 1), (1377, 1414, 1, - 48), (4304, 4346, 1, 3008), (4349, 4351, 1, 3008),
   (5112, 5117, 1, - 8), (7296, 7296, 1, - 6254), (7297, 7297, 1, - 6253), (7298, 7298, 1, - 6244),
   (7299, 7300, 1, - 6242), (7301, 7301, 1, - 6243), (7302, 7302, 1, - 6236), (7303, 7303, 1, - 6181),
   (7304, 7304, 1, 35266), (7545, 7545, 1, 35332), (7549, 7549, 1, 3814), (7566, 7566, 1, 35384),
   (7681, 7829, 2, - 1), (7835, 7835, 1, - 59), (7841, 7935, 2, - 1), (7936, 7943, 1, 8),
   (7952, 7957, 1, 8), (7968, 7975, 1, 8), (7984, 7991, 1, 8), (8000, 8005, 1, 8),
   (8017, 8023, 2, 8), (8032, 8039, 1, 8), (8048, 8049, 1, 74), (8050, 8053, 1, 86),
   (8054, 8055, 1, 100), (8056, 8057, 1, 128), (8058, 8059, 1, 112), (8060, 8061, 1, 126),
   (8112, 8113, 1, 8), (8126, 8126, 1, - 7205), (8144, 8145, 1, 8), (8160, 8161, 1, 8),
   (8165, 8165, 1, 7), (8526, 8526, 1, - 28), (8560, 8575, 1, - 16), (8580, 8580, 1, - 1),
   (9424, 9449, 1, - 26), (11312, 11359, 1, - 48), (11361, 11361, 1, - 1), (11365, 11365, 1, - 10795),
   (11366, 11366, 1, - 10792), (11368, 11372, 2, - 1), (11379, 11379, 1, - 1), (11382, 11382, 1, - 1),
   (11393, 11491, 2, - 1), (11500, 11502, 2, - 1), (11507, 11507, 1, - 1), (11520, 11557, 1, - 7264),
   (11559, 11559, 1, - 7264), (11565, 11565, 1, - 7264), (42561, 42605, 2, - 1), (42625, 42651, 2, - 1),
   (42787, 42799, 2, - 1), (42803, 42863, 2, - 1), (42874, 42876, 2, - 1), (42879, 42887, 2, - 1),
   (42892, 42892, 1, - 1), (42897, 42899, 2, - 1), (42900, 42900, 1, 48), (42903, 42921, 2, - 1),
   (42933, 42947, 2, - 1), (42952, 42954, 2, - 1), (42961, 42961, 1, - 1), (42967, 42969, 2, - 1),
   (42998, 42998, 1, - 1), (43859, 43859, 1, - 928), (43888, 43967, 1, - 38864), (65345, 65370, 1, - 32),
   (66600, 66639, 1, - 40), (66776, 66811, 1, - 40), (66967, 66977, 1, - 39), (66979, 66993, 1, - 39),
   (66995, 67001, 1, - 39), (67003, 67004, 1, - 39), (68800, 68850, 1, - 64), (71872, 71903, 1, - 32),
   (93792, 93823, 1, - 32), (125218, 125251, 1, - 34)]"

definition upper_special :: "(nat \<times> pystr) list" where
  "upper_special = [
   (223, [83, 83]), (329, [700, 78]), (496, [74, 780]), (912, [921, 776, 769]),
   (944, [933, 776, 769]), (1415, [1333, 1362]), (7830, [72, 817]), (7831, [84, 776]),
   (7832, [87, 778]), (7833, [89, 778]), (7834, [65, 702]), (8016, [933, 787]),
   (8018, [933, 787, 768]), (8020, [933, 787, 769]), (8022, [933, 787, 834]), (8064, [7944, 921]),
   (8065, [7945, 921]), (8066, [7946, 921]), (8067, [7947, 921]), (8068, [7948, 921]),
   (8069, [7949, 921]), (8070, [7950, 921]), (8071, [7951, 921]), (8072, [7944, 921]),
   (8073, [7945, 921]), (8074, [7946, 921]), (8075, [7947, 921]), (8076, [7948, 921]),
   (8077, [7949, 921]), (8078, [7950, 921]), (8079, [7951, 921]), (8080, [7976, 921]),
   (8081, [7977, 921]), (8082, [7978, 921]), (8083, [7979, 921]), (8084, [7980, 921]),
   (8085, [7981, 921]), (8086, [7982, 921]), (8087, [7983, 921]), (8088, [7976, 921]),
   (8089, [7977, 921]), (8090, [7978, 921]), (8091, [7979, 921]), (8092, [7980, 921]),
   (8093, [7981, 921]), (8094, [7982, 921]), (8095, [7983, 921]), (8096, [8040, 921]),
   (8097, [8041, 921]), (8098, [8042, 921]), (8099, [8043, 921]), (8100, [8044, 921]),
   (8101, [8045, 921]), (8102, [8046, 921]), (8103, [8047, 921]), (8104, [8040, 921]),
   (8105, [8041, 921]), (8106, [8042, 921]), (8107, [8043, 921]), (8108, [8044, 921]),
   (8109, [8045, 921]), (8110, [8046, 921]), (8111, [8047, 921]), (8114, [8122, 921]),
   (8115, [913, 921]), (8116, [902, 921]), (8118, [913, 834]), (8119, [913, 834, 921]),
   (8124, [913, 921]), (8130, [8138, 921]), (8131, [919, 921]), (8132, [905, 921]),
   (8134, [919, 834]), (8135, [919, 834, 921]), (8140, [919, 921]), (8146, [921, 776, 768]),
   (8147, [921, 776, 769]), (8150, [921, 834]), (8151, [921, 776, 834]), (8162, [933, 776, 768]),
   (8163, [933, 776, 769]), (8164, [929, 787]), (8166, [933, 834]), (8167, [933, 776, 834]),
   (8178, [8186, 921]), (8179, [937, 921]), (8180, [911, 921]), (8182, [937, 834]),
   (8183, [937, 834, 921]), (8188, [937, 921]), (64256, [70, 70]), (64257, [70, 73]),
   (64258, [70, 76]), (64259, [70, 70, 73]), (64260, [70, 70, 76]), (64261, [83, 84]),
   (64262, [83, 84]), (64275, [1348, 1350]), (64276, [1348, 1333]), (64277, [1348, 1339]),
   (64278, [1358, 1350]), (64279, [1348, 1341])]"

definition in_run :: "nat \<Rightarrow> nat \<times> nat \<times> nat \<times> int \<Rightarrow> bool" where
  "in_run c r = (case r of (lo, hi, stride, d) \<Rightarrow> lo \<le> c \<and> c \<le> hi \<and> (c - lo) mod stride = 0)"

definition upper_char :: "nat \<Rightarrow> pystr" where
  "upper_char c =
     (case find (in_run c) upper_runs of
        Some (lo, hi, stride, d) \<Rightarrow> [nat (int c + d)]
      | None \<Rightarrow> (case map_of upper_special c of Some u \<Rightarrow> u | None \<Rightarrow> [c]))"

definition str_upper :: "pystr \<Rightarrow> pystr" where
  "str_upper s = concat (map upper_char s)"

subsection \<open>Substring search: \<open>in\<close>, \<open>str.index\<close>\<close>

text \<open>
  For two strings, \<open>sub in s\<close> is a substring test and \<open>s.index(sub)\<close> is the lowest
  position at which \<open>sub\<close> starts in \<open>s\<close>; \<open>index\<close> raises \<open>ValueError\<close> when there is
  none. The empty string occurs at position 0 of every string.
\<close>

fun str_find :: "pystr \<Rightarrow> pystr \<Rightarrow> nat option" where
  "str_find [] sub = (if sub = [] then Some 0 else None)"
| "str_find (x # xs) sub =
     (if take (length sub) (x # xs) = sub then Some 0
      else map_option Suc (str_find xs sub))"

definition str_contains :: "pystr \<Rightarrow> pystr \<Rightarrow> bool" where
  "str_contains s sub = (str_find s sub \<noteq> None)"

definition str_index :: "pystr \<Rightarrow> pystr \<Rightarrow> error + int" where
  "str_index s sub = (case str_find s sub of None \<Rightarrow> Inl ValueError | Some i \<Rightarrow> Inr (int i))"

section \<open>The alphabet (app.py)\<close>

definition ALPHABET :: pystr where
  "ALPHABET = cps ''ABCDEFGHIJKLMNOPQRSTUVWXYZ ,.''"

definition ALPHABET_SIZE :: int where
  "ALPHABET_SIZE = int (length ALPHABET)"

text \<open>
  \<open>char_to_index(ch)\<close>: upper-case \<open>ch\<close>, then \<open>ALPHABET.index\<close> of the result when
  it is \<open>in ALPHABET\<close>, and the index of the space otherwise.
\<close>

definition char_to_index :: "pystr \<Rightarrow> error + int" where
  "char_to_index ch =
     (let ch' = str_upper ch in
      if str_contains ALPHABET ch' then str_index ALPHABET ch'
      else str_index ALPHABET (cps '' ''))"

text \<open>
  Indexing a string with an integer: a negative index counts from the end, and an index
  outside the string raises \<open>IndexError\<close>.
\<close>

definition str_getitem :: "pystr \<Rightarrow> int \<Rightarrow> error + pystr" where
  "str_getitem s i =
     (let n = int (length s); j = (if i < 0 then n + i else i)
      in if 0 \<le> j \<and> j < n then Inr [s ! nat j] else Inl IndexError)"

text \<open>
  \<open>index_to_char(idx) = ALPHABET[idx % ALPHABET_SIZE]\<close>. Python's \<open>%\<close> takes the
  sign of the divisor, as \<open>mod\<close> on \<open>int\<close> does.
\<close>

definition index_to_char :: "int \<Rightarrow> error + pystr" where
  "index_to_char idx = str_getitem ALPHABET (idx mod ALPHABET_SIZE)"


section \<open>The keyed index function (app.py)\<close>

subsection \<open>Library functions the code calls\<close>

text \<open>
  The functions of the Python standard library and of OpenCV that the code calls and
  whose implementation is outside the repository are parameters of the model:
  \<^item> \<open>hashlib.sha256(data).digest()\<close>, from a byte string to a byte string;
  \<^item> \<open>str.isalnum\<close> on one character;
  \<^item> \<open>cv2.imread\<close>, from the bytes of a file to a colour raster, \<open>None\<close> when the
    file cannot be decoded;
  \<^item> \<open>cv2.cvtColor(img, COLOR_BGR2GRAY)\<close>, from a colour raster to a raster of rows
    of grey values;
  \<^item> \<open>sift.detectAndCompute(block, None)\<close>: OpenCV returns the key points of the block
    and one descriptor per key point, with \<open>None\<close> for the descriptors exactly when there
    is no key point; the model pairs each key point with its descriptor, and the empty
    list stands for \<open>([], None)\<close>.
\<close>

record keypoint =
  kp_size :: real
  kp_angle :: real

record pylib =
  hashlib_sha256 :: "byte list \<Rightarrow> byte list"
  str_isalnum :: "nat \<Rightarrow> bool"
  cv2_imread :: "byte list \<Rightarrow> nat list list list option"
  cv2_cvtColor :: "nat list list list \<Rightarrow> nat list list"
  sift_detectAndCompute :: "nat list list \<Rightarrow> (keypoint \<times> real list) list"

subsection \<open>\<open>str.encode("utf-8")\<close> and \<open>int.from_bytes(_, "big")\<close>\<close>

text \<open>
  A code point of a Python string is at most \<open>0x10FFFF\<close>. The UTF-8 codec refuses the
  surrogate code points \<open>0xD800..0xDFFF\<close> with \<open>UnicodeEncodeError\<close>; a Python string
  can hold them (\<open>json.loads\<close> produces one from the escape \<open>\ud800\<close>). A number above
  \<open>0x10FFFF\<close> is no code point of a Python string; the model refuses it as well.
\<close>

definition utf8_char :: "nat \<Rightarrow> error + byte list" where
  "utf8_char c =
     (if c < 0x80 then Inr [of_nat c]
      else if c < 0x800 then Inr [of_nat (0xC0 + c div 64), of_nat (0x80 + c mod 64)]
      else if 0xD800 \<le> c \<and> c \<le> 0xDFFF then Inl UnicodeEncodeError
      else if c < 0x10000 then
        Inr [of_nat (0xE0 + c div 4096), of_nat (0x80 + c div 64 mod 64), of_nat (0x80 + c mod 64)]
      else if c \<le> 0x10FFFF then
        Inr [of_nat (0xF0 + c div 262144), of_nat (0x80 + c div 4096 mod 64),
             of_nat (0x80 + c div 64 mod 64), of_nat (0x80 + c mod 64)]
      else Inl UnicodeEncodeError)"

fun str_encode_utf8 :: "pystr \<Rightarrow> error + byte list" where
  "str_encode_utf8 [] = Inr []"
| "str_encode_utf8 (c # cs) =
     (case utf8_char c of
        Inl e \<Rightarrow> Inl e
      | Inr bs \<Rightarrow> (case str_encode_utf8 cs of Inl e \<Rightarrow> Inl e | Inr rest \<Rightarrow> Inr (bs @ rest)))"

definition int_from_bytes_big :: "byte list \<Rightarrow> int" where
  "int_from_bytes_big bs = foldl (\<lambda>acc b. acc * 256 + uint b) 0 bs"

subsection \<open>\<open>compute_char_index\<close>\<close>

text \<open>
  \<open>binary_code or ""\<close> is the empty string for \<open>None\<close> and for the empty string.
  \<open>digest[:4]\<close> is \<open>take 4\<close>: a slice never raises.
\<close>

definition compute_char_index :: "pylib \<Rightarrow> pystr option \<Rightarrow> pystr \<Rightarrow> error + int" where
  "compute_char_index L binary_code key =
     (case str_encode_utf8 (key @ cps '':'' @ (case binary_code of None \<Rightarrow> [] | Some b \<Rightarrow> b)) of
        Inl e \<Rightarrow> Inl e
      | Inr data \<Rightarrow>
          (let digest = hashlib_sha256 L data;
               v = int_from_bytes_big (take 4 digest)
           in Inr (v mod ALPHABET_SIZE)))"

text \<open>The value of a byte string read as a big-endian unsigned number, written as a sum.\<close>

definition big_endian_value :: "byte list \<Rightarrow> int" where
  "big_endian_value bs = (\<Sum>i<length bs. uint (bs ! i) * 256 ^ (length bs - 1 - i))"

definition encodable :: "pystr \<Rightarrow> bool" where
  "encodable s = list_all (\<lambda>c. c \<le> 0x10FFFF \<and> \<not> (0xD800 \<le> c \<and> c \<le> 0xDFFF)) s"


section \<open>The fingerprint extractor (image_to_binary.py)\<close>

subsection \<open>\<open>divide_image_into_blocks\<close>\<close>

text \<open>
  A grey raster is the list of its rows. \<open>image.shape[:2]\<close> is the number of rows and
  the length of a row. A slice \<open>a[y1:y2, x1:x2]\<close> with indices from 0 upwards keeps the
  rows \<open>y1 \<le> y < y2\<close> and in each the columns \<open>x1 \<le> x < x2\<close>, as far as they exist.
\<close>

type_synonym raster = "nat list list"
type_synonym coords = "nat \<times> nat \<times> nat \<times> nat"

definition shape_h :: "raster \<Rightarrow> nat" where
  "shape_h img = length img"

definition shape_w :: "raster \<Rightarrow> nat" where
  "shape_w img = (case img of [] \<Rightarrow> 0 | row # _ \<Rightarrow> length row)"

definition np_slice :: "raster \<Rightarrow> nat \<Rightarrow> nat \<Rightarrow> nat \<Rightarrow> nat \<Rightarrow> raster" where
  "np_slice img y1 y2 x1 x2 =
     map (\<lambda>row. take (x2 - x1) (drop x1 row)) (take (y2 - y1) (drop y1 img))"

text \<open>The body of the two nested loops, for the block in row \<open>i\<close> and column \<open>j\<close>.\<close>

definition block_at :: "raster \<Rightarrow> nat \<Rightarrow> nat \<Rightarrow> nat \<Rightarrow> nat \<Rightarrow> raster \<times> coords" where
  "block_at img rows cols i j =
     (let h = shape_h img; w = shape_w img;
          block_h = h div rows; block_w = w div cols;
          y1 = i * block_h;
          y2 = (if i < rows - 1 then (i + 1) * block_h else h);
          x1 = j * block_w;
          x2 = (if j < cols - 1 then (j + 1) * block_w else w)
      in (np_slice img y1 y2 x1 x2, (x1, y1, x2, y2)))"

text \<open>
  \<open>h // rows\<close> and \<open>w // cols\<close> are computed before the loops and raise
  \<open>ZeroDivisionError\<close> for a grid without rows or without columns.
\<close>

definition divide_image_into_blocks ::
  "raster \<Rightarrow> nat \<times> nat \<Rightarrow> error + (raster list \<times> coords list)" where
  "divide_image_into_blocks img block_size =
     (case block_size of (rows, cols) \<Rightarrow>
        if rows = 0 \<or> cols = 0 then Inl ZeroDivisionError
        else
          (let cells = concat (map (\<lambda>i. map (\<lambda>j. block_at img rows cols i j) [0..<cols]) [0..<rows])
           in Inr (map fst cells, map snd cells)))"

subsection \<open>\<open>get_vector_quadrant\<close>\<close>

text \<open>
  The argument of \<open>get_vector_quadrant\<close> is \<open>None\<close>, a number, a list, a NumPy array
  or another object. \<open>VArray\<close> is a one-dimensional array; \<open>VOther r\<close> is an object of
  another type, \<open>r\<close> being what \<open>float(vector)\<close> returns, \<open>None\<close> when it raises.
  Floating-point numbers are modelled as real numbers: rounding, infinities and NaN are
  outside the model.
\<close>

datatype vector = VNone | VNumber real | VList "real list" | VArray "real list" | VOther "real option"

definition np_mean :: "real list \<Rightarrow> real" where
  "np_mean xs = sum_list xs / real (length xs)"

definition np_arctan2 :: "real \<Rightarrow> real \<Rightarrow> real" where
  "np_arctan2 y x =
     (if 0 < x then arctan (y / x)
      else if x < 0 \<and> 0 \<le> y then arctan (y / x) + pi
      else if x < 0 then arctan (y / x) - pi
      else if 0 < y then pi / 2
      else if y < 0 then - (pi / 2)
      else 0)"

fun every_other :: "'a list \<Rightarrow> 'a list" where
  "every_other [] = []"
| "every_other [x] = [x]"
| "every_other (x # y # xs) = x # every_other xs"

definition np_degrees :: "real \<Rightarrow> real" where
  "np_degrees x = x * 180 / pi"

definition float_mod :: "real \<Rightarrow> real \<Rightarrow> real" where
  "float_mod x m = x - m * of_int \<lfloor>x / m\<rfloor>"

text \<open>The second half of \<open>get_vector_quadrant\<close>: from the direction to the code.\<close>

definition quadrant_of_direction :: "real \<Rightarrow> pystr" where
  "quadrant_of_direction direction =
     (let angle_deg = float_mod (np_degrees direction) 360;
          tolerance = 1 / 1000000
      in if \<bar>angle_deg\<bar> < tolerance \<or> \<bar>angle_deg - 90\<bar> < tolerance
            \<or> \<bar>angle_deg - 180\<bar> < tolerance \<or> \<bar>angle_deg - 270\<bar> < tolerance
            \<or> \<bar>angle_deg - 360\<bar> < tolerance
         then cps ''--''
         else if 0 < angle_deg \<and> angle_deg < 90 then cps ''00''
         else if 90 < angle_deg \<and> angle_deg < 180 then cps ''01''
         else if 180 < angle_deg \<and> angle_deg < 270 then cps ''10''
         else cps ''11'')"

definition get_vector_quadrant :: "vector \<Rightarrow> pystr" where
  "get_vector_quadrant v =
     (case v of
        VNone \<Rightarrow> cps ''00''
      | VNumber x \<Rightarrow> quadrant_of_direction x
      | VList xs \<Rightarrow>
          (if length xs = 0 then cps ''00'' else quadrant_of_direction (np_mean xs))
      | VArray xs \<Rightarrow>
          (if length xs = 0 then cps ''00''
           else if length xs > 1 then
             quadrant_of_direction
               (np_arctan2 (sum_list (every_other (drop 1 xs))) (sum_list (every_other xs)))
           else quadrant_of_direction (np_mean xs))
      | VOther r \<Rightarrow> (case r of None \<Rightarrow> cps ''00'' | Some x \<Rightarrow> quadrant_of_direction x))"

subsection \<open>\<open>image_to_binary\<close>\<close>

text \<open>
  One iteration of the loop over the blocks: the key points of the block whose size
  reaches the threshold, and the code of the mean of their angles, or \<open>00\<close> when no
  key point is left. \<open>np.mean\<close> returns a NumPy float, which is a number.
\<close>

definition block_code :: "pylib \<Rightarrow> real \<Rightarrow> raster \<Rightarrow> pystr \<times> keypoint list" where
  "block_code L threshold block =
     (let found = sift_detectAndCompute L block;
          filtered = filter (\<lambda>(kp, d). kp_size kp \<ge> threshold) found;
          filtered_kps = map fst filtered
      in if length filtered_kps > 0 then
           (let angles = map kp_angle filtered_kps;
                mean_angle = np_mean angles
            in (get_vector_quadrant (VNumber mean_angle), filtered_kps))
         else (cps ''00'', filtered_kps))"

text \<open>
  \<open>image_to_binary\<close> returns \<open>(None, None, None)\<close> when the image cannot be read;
  this is the result \<open>None\<close> of the model. Its argument is the content of the file at
  \<open>image_path\<close>.
\<close>

definition image_to_binary ::
  "pylib \<Rightarrow> byte list \<Rightarrow> real
     \<Rightarrow> error + (pystr \<times> (keypoint list \<times> coords) list \<times> coords list) option" where
  "image_to_binary L content threshold =
     (case cv2_imread L content of
        None \<Rightarrow> Inr None
      | Some img \<Rightarrow>
          (let gray = cv2_cvtColor L img in
           case divide_image_into_blocks gray (4, 4) of
             Inl e \<Rightarrow> Inl e
           | Inr (blocks, block_coords) \<Rightarrow>
               (let per_block = map (block_code L threshold) blocks;
                    binary_bits = map fst per_block;
                    all_keypoints = zip (map snd per_block) block_coords;
                    binary_string = concat binary_bits
                in Inr (Some (binary_string, all_keypoints, block_coords)))))"


text \<open>The first component, as in \<open>binary_string, _, _ = image_to_binary(path)\<close>.\<close>

definition binary_string_of :: "pylib \<Rightarrow> byte list \<Rightarrow> error + pystr option" where
  "binary_string_of L content =
     (case image_to_binary L content 6 of
        Inl e \<Rightarrow> Inl e
      | Inr None \<Rightarrow> Inr None
      | Inr (Some (binary_string, all_keypoints, block_coords)) \<Rightarrow> Inr (Some binary_string))"

section \<open>The corpus indexer (app.py)\<close>

subsection \<open>Files\<close>

text \<open>
  The part of the file system the code reads and writes:
  \<^item> \<open>raw_img\<close>: the directory \<open>RawImg\<close>, \<open>None\<close> when it does not exist, and otherwise its
    entries, each a name and the bytes of the file, in the order the directory is listed;
  \<^item> \<open>key_dirs\<close>: the directories below \<open>static/keys\<close>, each the list of its path
    components;
  \<^item> \<open>key_files\<close>: the image files below \<open>static/keys\<close>, from path components to bytes;
  \<^item> \<open>mapping_files\<close>: for the name of a key directory, the dictionary stored in its
    \<open>mapping.json\<close>, \<open>None\<close> when the file does not exist.
\<close>

type_synonym mapping = "pystr \<rightharpoonup> pystr list"

record store =
  raw_img :: "(pystr \<times> byte list) list option"
  key_dirs :: "pystr list set"
  key_files :: "pystr list \<rightharpoonup> byte list"
  mapping_files :: "pystr \<rightharpoonup> mapping"

subsection \<open>\<open>str(i)\<close>, \<open>range\<close>, \<open>str.strip\<close>, \<open>Path.glob\<close>\<close>

fun digits :: "nat \<Rightarrow> pystr" where
  "digits n = (if n < 10 then [48 + n] else digits (n div 10) @ [48 + n mod 10])"

declare digits.simps [simp del]

definition str_int :: "int \<Rightarrow> pystr" where
  "str_int i = (if i < 0 then 45 # digits (nat (- i)) else digits (nat i))"

definition py_range :: "int \<Rightarrow> int list" where
  "py_range n = map int [0..<nat n]"

text \<open>The characters \<open>str.strip()\<close> removes: those for which \<open>str.isspace\<close> holds.\<close>

definition py_isspace :: "nat \<Rightarrow> bool" where
  "py_isspace c =
     (c \<in> set [9, 10, 11, 12, 13, 28, 29, 30, 31, 32, 133, 160, 5760,
                8192, 8193, 8194, 8195, 8196, 8197, 8198, 8199, 8200, 8201, 8202,
                8232, 8233, 8239, 8287, 12288])"

definition str_strip :: "pystr \<Rightarrow> pystr" where
  "str_strip s = rev (dropWhile py_isspace (rev (dropWhile py_isspace s)))"

definition str_endswith :: "pystr \<Rightarrow> pystr \<Rightarrow> bool" where
  "str_endswith s suffix = (length suffix \<le> length s \<and> drop (length s - length suffix) s = suffix)"

text \<open>\<open>raw_path.glob("*" + ext)\<close>: the entries whose name ends with \<open>ext\<close>.\<close>

definition glob_ext :: "(pystr \<times> byte list) list \<Rightarrow> pystr \<Rightarrow> (pystr \<times> byte list) list" where
  "glob_ext entries ext = filter (\<lambda>(name, content). str_endswith name ext) entries"

subsection \<open>\<open>safe_key_name\<close>\<close>

definition safe_key_name :: "pylib \<Rightarrow> pystr \<Rightarrow> pystr" where
  "safe_key_name L key =
     (let name = map (\<lambda>c. if str_isalnum L c \<or> c \<in> set (cps ''-_.'') then c else of_char CHR ''_'') key
      in if name = [] then cps ''default'' else name)"

subsection \<open>\<open>initialize_key_mapping\<close>\<close>

text \<open>
  The loop over the sorted image files. An exception leaves the loop with the files
  written so far. \<open>if not binary_string\<close> holds for \<open>None\<close> and for the empty string.
\<close>

fun index_images ::
  "pylib \<Rightarrow> pystr \<Rightarrow> pystr \<Rightarrow> (pystr \<times> byte list) list \<Rightarrow> mapping \<Rightarrow> store
     \<Rightarrow> (error + mapping) \<times> store" where
  "index_images L key key_name [] groups st = (Inr groups, st)"
| "index_images L key key_name ((name, content) # rest) groups st =
     (case binary_string_of L content of
        Inl e \<Rightarrow> (Inl e, st)
      | Inr None \<Rightarrow> index_images L key key_name rest groups st
      | Inr (Some binary_string) \<Rightarrow>
          if binary_string = [] then index_images L key key_name rest groups st
          else
            (case compute_char_index L (Some binary_string) key of
               Inl e \<Rightarrow> (Inl e, st)
             | Inr idx \<Rightarrow>
                 (let idx_str = str_int idx;
                      target_dir = [key_name, idx_str];
                      st1 = st\<lparr>key_dirs := insert target_dir (key_dirs st)\<rparr>;
                      target_name = name;
                      target_path = [key_name, idx_str, target_name];
                      st2 = (if key_files st1 target_path = None
                             then st1\<lparr>key_files := (key_files st1)(target_path \<mapsto> content)\<rparr>
                             else st1)
                  in case groups idx_str of
                       None \<Rightarrow> (Inl KeyError, st2)
                     | Some names \<Rightarrow>
                         index_images L key key_name rest (groups(idx_str \<mapsto> names @ [target_name])) st2)))"

definition image_extensions :: "pystr list" where
  "image_extensions = [cps ''.jpg'', cps ''.jpeg'', cps ''.png'', cps ''.bmp'']"

definition list_image_files :: "(pystr \<times> byte list) list \<Rightarrow> (pystr \<times> byte list) list" where
  "list_image_files entries =
     sort_key fst
       (concat (map (\<lambda>ext. glob_ext entries ext @ glob_ext entries (str_upper ext)) image_extensions))"

definition empty_groups :: mapping where
  "empty_groups = map_of (map (\<lambda>i. (str_int i, [])) (py_range ALPHABET_SIZE))"

text \<open>
  The result is the returned pair, or the exception raised, together with the file
  system after the call. \<open>json.dump\<close> followed by \<open>json.load\<close> gives back the same
  dictionary of lists of strings.
\<close>

definition initialize_key_mapping ::
  "pylib \<Rightarrow> store \<Rightarrow> pystr \<Rightarrow> (error + (mapping \<times> bool)) \<times> store" where
  "initialize_key_mapping L st key =
     (let key_name = safe_key_name L key in
      case mapping_files st key_name of
        Some m \<Rightarrow> (Inr (m, False), st)
      | None \<Rightarrow>
          (let st1 = st\<lparr>key_dirs := insert [key_name] (key_dirs st)\<rparr>;
               groups = empty_groups
           in case raw_img st1 of
                None \<Rightarrow> (Inl RuntimeError, st1)
              | Some entries \<Rightarrow>
                  (case index_images L key key_name (list_image_files entries) groups st1 of
                     (Inl e, st2) \<Rightarrow> (Inl e, st2)
                   | (Inr groups', st2) \<Rightarrow>
                       (Inr (groups', True),
                        st2\<lparr>mapping_files := (mapping_files st2)(key_name \<mapsto> groups')\<rparr>))))"

section \<open>The cipher engine (app.py)\<close>

subsection \<open>\<open>random.choice\<close>\<close>

text \<open>
  \<open>random.choice(seq)\<close> raises \<open>IndexError\<close> on an empty sequence and otherwise returns
  the element at a position below \<open>len(seq)\<close> that the generator draws. The generator is
  the stream of the numbers it will draw; a draw is reduced modulo the length, so every
  position can be chosen.
\<close>

definition random_choice :: "(nat \<Rightarrow> nat) \<Rightarrow> 'a list \<Rightarrow> error + ('a \<times> (nat \<Rightarrow> nat))" where
  "random_choice rng seq =
     (if seq = [] then Inl IndexError
      else Inr (seq ! (rng 0 mod length seq), \<lambda>k. rng (Suc k)))"

subsection \<open>\<open>api_encrypt_text\<close>\<close>

text \<open>
  An image URL \<open>/static/keys/{key_name}/{idx_str}/{file_name}\<close> is kept as its three
  parts; \<open>url_of\<close> is the string. The request carries \<open>data.get("key")\<close> and
  \<open>data.get("text")\<close>, \<open>None\<close> when absent. A response is the JSON body of status 200,
  a rejection with status 400, or status 500 with the exception that was raised.
\<close>

type_synonym image_ref = "pystr \<times> pystr \<times> pystr"

definition url_of :: "image_ref \<Rightarrow> pystr" where
  "url_of r = (case r of (key_name, idx_str, file_name) \<Rightarrow>
     cps ''/static/keys/'' @ key_name @ cps ''/'' @ idx_str @ cps ''/'' @ file_name)"

record encrypt_request =
  req_key :: "pystr option"
  req_text :: "pystr option"

datatype 'a response = Ok200 'a | BadRequest400 | Error500 error

text \<open>The loop over the characters of the text.\<close>

fun encrypt_chars ::
  "mapping \<Rightarrow> pystr \<Rightarrow> pystr \<Rightarrow> (pystr \<rightharpoonup> pystr set) \<Rightarrow> (nat \<Rightarrow> nat)
     \<Rightarrow> error + image_ref list" where
  "encrypt_chars mapping key_name [] used_per_index rng = Inr []"
| "encrypt_chars mapping key_name (ch # text) used_per_index rng =
     (case char_to_index [ch] of
        Inl e \<Rightarrow> Inl e
      | Inr idx \<Rightarrow>
          (let idx_str = str_int idx;
               files = (case mapping idx_str of None \<Rightarrow> [] | Some fs \<Rightarrow> fs)
           in if files = [] then encrypt_chars mapping key_name text used_per_index rng
              else
                (let candidates = files in
                 case used_per_index idx_str of
                   None \<Rightarrow> Inl KeyError
                 | Some used \<Rightarrow>
                     (let unused = filter (\<lambda>f. f \<notin> used) candidates in
                      case random_choice rng (if unused \<noteq> [] then unused else candidates) of
                        Inl e \<Rightarrow> Inl e
                      | Inr (file_name, rng') \<Rightarrow>
                          (case encrypt_chars mapping key_name text
                                  (used_per_index(idx_str \<mapsto> insert file_name used)) rng' of
                             Inl e \<Rightarrow> Inl e
                           | Inr urls \<Rightarrow> Inr ((key_name, idx_str, file_name) # urls))))))"

definition empty_used :: "pystr \<rightharpoonup> pystr set" where
  "empty_used = map_of (map (\<lambda>i. (str_int i, {})) (py_range ALPHABET_SIZE))"

definition api_encrypt_text ::
  "pylib \<Rightarrow> (nat \<Rightarrow> nat) \<Rightarrow> store \<Rightarrow> encrypt_request
     \<Rightarrow> (image_ref list \<times> bool) response \<times> store" where
  "api_encrypt_text L rng st data =
     (let key = str_strip (case req_key data of None \<Rightarrow> [] | Some k \<Rightarrow> k);
          text = str_strip (case req_text data of None \<Rightarrow> [] | Some t \<Rightarrow> t)
      in if key = [] \<or> text = [] then (BadRequest400, st)
         else
           (case initialize_key_mapping L st key of
              (Inl e, st') \<Rightarrow> (Error500 e, st')
            | (Inr (mapping, initialized_now), st') \<Rightarrow>
                (let key_name = safe_key_name L key;
                     used_per_index = empty_used
                 in case encrypt_chars mapping key_name text used_per_index rng of
                      Inl e \<Rightarrow> (Error500 e, st')
                    | Inr urls \<Rightarrow> (Ok200 (urls, initialized_now), st'))))"

subsection \<open>\<open>api_decrypt_images\<close>\<close>

text \<open>
  Each uploaded file is saved under a fresh temporary name, read back by
  \<open>image_to_binary\<close> and removed in the \<open>finally\<close> block; what the loop computes depends
  on the bytes of the upload only.
\<close>

fun decrypt_files :: "pylib \<Rightarrow> pystr \<Rightarrow> byte list list \<Rightarrow> error + pystr list" where
  "decrypt_files L key [] = Inr []"
| "decrypt_files L key (f # files) =
     (case binary_string_of L f of
        Inl e \<Rightarrow> Inl e
      | Inr None \<Rightarrow> decrypt_files L key files
      | Inr (Some binary_string) \<Rightarrow>
          if binary_string = [] then decrypt_files L key files
          else
            (case compute_char_index L (Some binary_string) key of
               Inl e \<Rightarrow> Inl e
             | Inr idx \<Rightarrow>
                 (case index_to_char idx of
                    Inl e \<Rightarrow> Inl e
                  | Inr ch \<Rightarrow>
                      (case decrypt_files L key files of
                         Inl e \<Rightarrow> Inl e
                       | Inr chars \<Rightarrow> Inr (ch # chars)))))"

definition api_decrypt_images :: "pylib \<Rightarrow> pystr option \<Rightarrow> byte list list \<Rightarrow> pystr response" where
  "api_decrypt_images L form_key files =
     (let key = str_strip (case form_key of None \<Rightarrow> [] | Some k \<Rightarrow> k)
      in if key = [] then BadRequest400
         else if files = [] then BadRequest400
         else
           (case decrypt_files L key files of
              Inl e \<Rightarrow> Error500 e
            | Inr chars \<Rightarrow> Ok200 (concat chars)))"


section \<open>Auxiliary notions for the properties\<close>

text \<open>A pixel position lies inside the rectangle \<open>(x1, y1, x2, y2)\<close> of a block.\<close>

definition in_coords :: "coords \<Rightarrow> nat \<Rightarrow> nat \<Rightarrow> bool" where
  "in_coords c y x = (case c of (x1, y1, x2, y2) \<Rightarrow> x1 \<le> x \<and> x < x2 \<and> y1 \<le> y \<and> y < y2)"

text \<open>The file names of a bucket, as \<open>mapping.get(idx_str) or []\<close> reads them.\<close>

definition bucket :: "mapping \<Rightarrow> pystr \<Rightarrow> pystr list" where
  "bucket m idx_str = (case m idx_str of None \<Rightarrow> [] | Some fs \<Rightarrow> fs)"

text \<open>The file names chosen for a bucket before position \<open>n\<close> of the output.\<close>

definition used_before :: "image_ref list \<Rightarrow> nat \<Rightarrow> pystr \<Rightarrow> pystr set" where
  "used_before urls n idx_str = {f. \<exists>k<n. snd (urls ! k) = (idx_str, f)}"

text \<open>
  A block holds the pixels of its rectangle: it has one row for each row of the
  rectangle, and each of its rows holds the pixels of the image in the columns of the
  rectangle.
\<close>

definition block_holds :: "raster \<Rightarrow> raster \<Rightarrow> coords \<Rightarrow> bool" where
  "block_holds img block c =
     (case c of (x1, y1, x2, y2) \<Rightarrow>
        length block = y2 - y1 \<and>
        (\<forall>r < y2 - y1. length (block ! r) = x2 - x1 \<and>
           (\<forall>k < x2 - x1. block ! r ! k = img ! (y1 + r) ! (x1 + k))))"



text \<open>
  The symbol the decoder gives for an image chosen for the character \<open>c\<close>: the symbol of
  the alphabet at the index \<open>char_to_index\<close> gives for \<open>c\<close>.
\<close>

definition alphabet_symbol_of :: "nat \<Rightarrow> pystr" where
  "alphabet_symbol_of c = (case char_to_index [c] of Inl e \<Rightarrow> [] | Inr i \<Rightarrow> [ALPHABET ! nat i])"

text \<open>
  The alphabet-normalised form of a text in the words of the specification: each
  character is upper-cased, and a character that is then not a symbol of the alphabet
  becomes the space.
\<close>

definition spec_normalize_char :: "nat \<Rightarrow> pystr" where
  "spec_normalize_char c =
     (let u = upper_char c in if length u = 1 \<and> hd u \<in> set ALPHABET then u else cps '' '')"

definition spec_normalized :: "pystr \<Rightarrow> pystr" where
  "spec_normalized t = concat (map spec_normalize_char t)"

text \<open>
  A mapping is consistent with a key on a file system when every file name it lists in a
  bucket has a stored copy in the directory of the bucket, and the keyed index of the
  fingerprint of that copy under the key is the bucket.
\<close>

definition mapping_consistent :: "pylib \<Rightarrow> pystr \<Rightarrow> pystr \<Rightarrow> mapping \<Rightarrow> store \<Rightarrow> bool" where
  "mapping_consistent L key key_name m st =
     (\<forall>b f. f \<in> set (bucket m b) \<longrightarrow>
        (\<exists>content fp idx. key_files st [key_name, b, f] = Some content
           \<and> binary_string_of L content = Inr (Some fp) \<and> fp \<noteq> []
           \<and> compute_char_index L (Some fp) key = Inr idx \<and> str_int idx = b))"

text \<open>
  The stored copy of a corpus image, in whatever bucket directory, has the fingerprint
  of the corpus image.
\<close>

definition copies_keep_fingerprint :: "pylib \<Rightarrow> pystr \<Rightarrow> (pystr \<times> byte list) list \<Rightarrow> store \<Rightarrow> bool" where
  "copies_keep_fingerprint L key_name entries st =
     (\<forall>(name, content)\<in>set entries. \<forall>b c. key_files st [key_name, b, name] = Some c
         \<longrightarrow> binary_string_of L c = binary_string_of L content)"

text \<open>What the build records for every name it lists.\<close>

definition listed_ok :: "pylib \<Rightarrow> pystr \<Rightarrow> pystr \<Rightarrow> (pystr \<times> byte list) list \<Rightarrow> mapping \<Rightarrow> store \<Rightarrow> bool" where
  "listed_ok L key key_name entries g st =
     (\<forall>b f. f \<in> set (bucket g b) \<longrightarrow>
        key_files st [key_name, b, f] \<noteq> None
        \<and> (\<exists>content fp idx. (f, content) \<in> set entries
              \<and> binary_string_of L content = Inr (Some fp) \<and> fp \<noteq> []
              \<and> compute_char_index L (Some fp) key = Inr idx \<and> str_int idx = b))"

section \<open>A concrete instance\<close>

text \<open>
  An instance of the library functions on which the definitions can be evaluated. It is
  a stand-in: the digest is a checksum (the sum of the bytes in the fourth byte), an
  image file is readable when it has 16 bytes, which are the pixels of a raster of 4 rows
  and 4 columns, and the detector finds in a block whose first pixel is \<open>v > 0\<close> one key
  point of size 8 and angle \<open>v * pi / 4\<close>.
\<close>

definition sample_lib :: pylib where
  "sample_lib = \<lparr>
     hashlib_sha256 = (\<lambda>bs. [0, 0, 0, of_nat (sum_list (map unat bs))] @ replicate 28 0),
     str_isalnum = (\<lambda>c. (48 \<le> c \<and> c \<le> 57) \<or> (65 \<le> c \<and> c \<le> 90) \<or> (97 \<le> c \<and> c \<le> 122)),
     cv2_imread = (\<lambda>bs. if length bs = 16
                          then Some (map (\<lambda>i. map (\<lambda>j. [unat (bs ! (4 * i + j))]) [0..<4]) [0..<4])
                          else None),
     cv2_cvtColor = map (map sum_list),
     sift_detectAndCompute =
       (\<lambda>block. case block of [] \<Rightarrow> []
          | row # _ \<Rightarrow> (case row of [] \<Rightarrow> []
             | v # _ \<Rightarrow> if v = 0 then [] else [(\<lparr>kp_size = 8, kp_angle = real v * pi / 4\<rparr>, [])]))\<rparr>"

definition image_a :: "byte list" where
  "image_a = [0, 0, 0, 0, 0, 0, 0, 0, 0, 0, 0, 0, 0, 0, 0, 0]"

definition image_b :: "byte list" where
  "image_b = [3, 0, 0, 0, 0, 0, 0, 0, 0, 0, 0, 0, 0, 0, 0, 0]"


definition sample_corpus :: "(pystr \<times> byte list) list" where
  "sample_corpus = [(cps ''b.png'', image_b), (cps ''a.jpg'', image_a),
                    (cps ''broken.png'', [7]), (cps ''notes.txt'', [1, 2, 3]),
                    (cps ''a2.jpg'', image_a)]"

definition sample_store :: store where
  "sample_store = \<lparr>raw_img = Some sample_corpus, key_dirs = {}, key_files = Map.empty,
                    mapping_files = Map.empty\<rparr>"

text \<open>A raster of 5 rows and 6 columns.\<close>

definition sample_raster :: raster where
  "sample_raster = [[10, 11, 12, 13, 14, 15], [20, 21, 22, 23, 24, 25], [30, 31, 32, 33, 34, 35],
                    [40, 41, 42, 43, 44, 45], [50, 51, 52, 53, 54, 55]]"

text \<open>The mapping that indexing the concrete corpus under the key \<open>K\<close> gives.\<close>

definition sample_mapping :: mapping where
  "sample_mapping = empty_groups(cps ''17'' \<mapsto> [cps ''a.jpg'', cps ''a2.jpg''], cps ''18'' \<mapsto> [cps ''b.png''])"

text \<open>The mapping and the stored copies that indexing the concrete corpus under the key \<open>T\<close> gives.\<close>

definition sample_mapping_t :: mapping where
  "sample_mapping_t = empty_groups(cps ''26'' \<mapsto> [cps ''a.jpg'', cps ''a2.jpg''], cps ''27'' \<mapsto> [cps ''b.png''])"

definition sample_files_t :: "pystr list \<rightharpoonup> byte list" where
  "sample_files_t = [[cps ''T'', cps ''26'', cps ''a.jpg''] \<mapsto> image_a,
                     [cps ''T'', cps ''26'', cps ''a2.jpg''] \<mapsto> image_a,
                     [cps ''T'', cps ''27'', cps ''b.png''] \<mapsto> image_b]"

section \<open>Properties\<close>

subsection \<open>Alphabet\<close>

lemma ALPHABET_SIZE_29: "ALPHABET_SIZE = 29"
  by (simp add: ALPHABET_SIZE_def ALPHABET_def cps_def)

lemma length_ALPHABET: "length ALPHABET = 29"
  by (simp add: ALPHABET_def cps_def)

lemma index_to_char_value: "index_to_char idx = Inr [ALPHABET ! nat (idx mod 29)]"
proof -
  have "0 \<le> idx mod 29" and "idx mod 29 < 29"
    by simp_all
  then have "\<not> idx mod 29 < 0" and "nat (idx mod 29) < 29"
    by linarith+
  then show ?thesis
    by (simp add: index_to_char_def str_getitem_def ALPHABET_SIZE_29 length_ALPHABET Let_def)
qed

text \<open>
  C10. For every integer \<open>idx\<close>, also outside 0..28, \<open>index_to_char\<close> returns the
  symbol of the alphabet at position \<open>idx mod 29\<close>, a position inside the alphabet; it
  never raises \<open>IndexError\<close>.
\<close>

theorem index_to_char_total:
  "index_to_char idx = Inr [ALPHABET ! nat (idx mod 29)] \<and> nat (idx mod 29) < length ALPHABET"
proof -
  have "0 \<le> idx mod 29" and "idx mod 29 < 29"
    by simp_all
  then have "nat (idx mod 29) < 29"
    by linarith
  then show ?thesis
    by (simp add: index_to_char_value length_ALPHABET)
qed

subsection \<open>The keyed index\<close>

lemma int_from_bytes_big_foldl:
  "foldl (\<lambda>acc b. acc * 256 + uint b) a bs
     = a * 256 ^ length bs + (\<Sum>i<length bs. uint (bs ! i) * 256 ^ (length bs - 1 - i))"
proof (induction bs arbitrary: a)
  case Nil
  then show ?case by simp
next
  case (Cons b bs)
  have "(\<Sum>i<Suc (length bs). uint ((b # bs) ! i) * 256 ^ (Suc (length bs) - 1 - i))
        = uint b * 256 ^ length bs + (\<Sum>i<length bs. uint (bs ! i) * 256 ^ (length bs - 1 - i))"
    by (simp add: sum.lessThan_Suc_shift del: sum.lessThan_Suc)
  then show ?case using Cons.IH [of "a * 256 + uint b"]
    by (simp add: algebra_simps)
qed

lemma int_from_bytes_big_value: "int_from_bytes_big bs = big_endian_value bs"
  by (simp add: int_from_bytes_big_def big_endian_value_def int_from_bytes_big_foldl)

lemma utf8_char_ok:
  "c \<le> 0x10FFFF \<Longrightarrow> \<not> (0xD800 \<le> c \<and> c \<le> 0xDFFF) \<Longrightarrow> \<exists>bs. utf8_char c = Inr bs"
  by (simp add: utf8_char_def)

lemma str_encode_utf8_ok: "encodable s \<Longrightarrow> \<exists>bs. str_encode_utf8 s = Inr bs"
proof (induction s)
  case Nil
  then show ?case by simp
next
  case (Cons c cs)
  then obtain bs rest where "utf8_char c = Inr bs" "str_encode_utf8 cs = Inr rest"
    using utf8_char_ok [of c] by (auto simp: encodable_def)
  then show ?case by simp
qed

lemma encodable_append: "encodable (a @ b) = (encodable a \<and> encodable b)"
  by (simp add: encodable_def)

lemma encodable_colon: "encodable (cps '':'')"
  by (simp add: encodable_def cps_def)

text \<open>
  C1 (as amended). For every key and every fingerprint string that hold no surrogate code
  point, \<open>compute_char_index\<close> returns the number obtained by encoding the key, a colon
  and the fingerprint in UTF-8, hashing the bytes, reading the first 4 bytes of the
  digest as a big-endian unsigned number and reducing it modulo 29; the result lies in
  0..28. The function is a function of its arguments: equal arguments give equal results.
\<close>

theorem compute_char_index_spec:
  assumes "encodable key" and "encodable code"
  shows "\<exists>data. str_encode_utf8 (key @ cps '':'' @ code) = Inr data
           \<and> compute_char_index L (Some code) key
               = Inr (big_endian_value (take 4 (hashlib_sha256 L data)) mod 29)
           \<and> (\<exists>i. compute_char_index L (Some code) key = Inr i \<and> 0 \<le> i \<and> i \<le> 28)"
proof -
  from assms have "encodable (key @ cps '':'' @ code)"
    by (simp add: encodable_append encodable_colon)
  then obtain data where d: "str_encode_utf8 (key @ cps '':'' @ code) = Inr data"
    using str_encode_utf8_ok by blast
  then show ?thesis
    by (simp add: compute_char_index_def int_from_bytes_big_value ALPHABET_SIZE_29 Let_def)
qed

theorem compute_char_index_spec_witness:
  "encodable (cps ''K'') \<and> encodable (cps ''01'')
     \<and> (\<exists>i. compute_char_index sample_lib (Some (cps ''01'')) (cps ''K'') = Inr i \<and> 0 \<le> i \<and> i \<le> 28)"
proof -
  have k: "encodable (cps ''K'')" and c: "encodable (cps ''01'')"
    by (simp_all add: encodable_def cps_def)
  from compute_char_index_spec [OF k c, of sample_lib] show ?thesis
    using k c by blast
qed

text \<open>
  The claim C1 as stated, for every key string, fails for a key that holds a surrogate
  code point: the encoding raises \<open>UnicodeEncodeError\<close> and no index is returned.
\<close>

theorem compute_char_index_surrogate:
  "compute_char_index sample_lib (Some (cps ''01'')) [0xD800] = Inl UnicodeEncodeError"
  by (simp add: compute_char_index_def utf8_char_def)

subsection \<open>The character-to-index mapping\<close>

lemma upper_runs_low: "list_all (\<lambda>r. 97 \<le> fst r) upper_runs"
  by (simp add: upper_runs_def)

lemma upper_special_low: "list_all (\<lambda>p. 223 \<le> fst p) upper_special"
  by (simp add: upper_special_def)

lemma upper_char_below_a: "c < 97 \<Longrightarrow> upper_char c = [c]"
proof -
  assume c: "c < 97"
  have "find (in_run c) upper_runs = None"
    using upper_runs_low c by (auto simp: find_None_iff list_all_iff in_run_def)
  moreover have "map_of upper_special c = None"
    using upper_special_low c by (force simp: map_of_eq_None_iff list_all_iff)
  ultimately show ?thesis by (simp add: upper_char_def)
qed

lemma upper_char_lower: "97 \<le> c \<Longrightarrow> c \<le> 122 \<Longrightarrow> upper_char c = [c - 32]"
proof -
  assume c: "97 \<le> c" "c \<le> 122"
  obtain rest where r: "upper_runs = (97, 122, 1, - 32) # rest"
    by (simp add: upper_runs_def)
  have "find (in_run c) upper_runs = Some (97, 122, 1, - 32)"
    using c by (simp add: r in_run_def)
  then show ?thesis using c by (simp add: upper_char_def nat_diff_distrib')
qed

lemma special_contained:
  "list_all (\<lambda>(c, u). c = 0xFB05 \<or> c = 0xFB06 \<or> \<not> str_contains ALPHABET u) upper_special"
  by (simp add: upper_special_def str_contains_def ALPHABET_def cps_def)

lemma str_find_SomeD:
  "str_find s sub = Some i \<Longrightarrow> i + length sub \<le> length s \<and> take (length sub) (drop i s) = sub"
proof (induction s arbitrary: i)
  case Nil
  then show ?case by (simp split: if_splits)
next
  case (Cons x xs)
  show ?case
  proof (cases "take (length sub) (x # xs) = sub")
    case True
    with Cons.prems have "i = 0" by simp
    moreover have "length sub \<le> length (x # xs)"
      using arg_cong [OF True, of length] by (simp add: min_def split: if_splits)
    ultimately show ?thesis using True by simp
  next
    case False
    with Cons.prems obtain j where "str_find xs sub = Some j" "i = Suc j"
      by auto
    with Cons.IH [of j] show ?thesis by simp
  qed
qed

lemma str_find_single_None: "a \<notin> set s \<Longrightarrow> str_find s [a] = None"
  by (induction s) (auto split: if_splits)

lemma str_find_single_Some: "a \<in> set s \<Longrightarrow> \<exists>i. str_find s [a] = Some i"
  by (induction s) (auto split: if_splits)

lemma str_find_single_nth: "str_find s [a] = Some i \<Longrightarrow> i < length s \<and> s ! i = a"
proof -
  assume "str_find s [a] = Some i"
  from str_find_SomeD [OF this] have "i + 1 \<le> length s" "take 1 (drop i s) = [a]"
    by simp_all
  then show ?thesis
    by (metis Suc_eq_plus1 Suc_le_lessD list.sel(1) take_Suc_Cons take_eq_Nil One_nat_def
        Cons_nth_drop_Suc take_0)
qed

lemma space_index: "str_index ALPHABET (cps '' '') = Inr 26"
  by (simp add: str_index_def ALPHABET_def cps_def)

lemma char_to_index_total: "\<exists>i. char_to_index ch = Inr i \<and> 0 \<le> i \<and> i \<le> 28"
proof (cases "str_find ALPHABET (str_upper ch)")
  case None
  then show ?thesis by (simp add: char_to_index_def str_contains_def space_index)
next
  case (Some i)
  from str_find_SomeD [OF Some] have le: "i + length (str_upper ch) \<le> 29"
    by (simp add: length_ALPHABET)
  have "i \<le> 28"
  proof (cases "str_upper ch = []")
    case True
    with Some have "i = 0" by (simp add: ALPHABET_def cps_def)
    then show ?thesis by simp
  next
    case False
    then have "0 < length (str_upper ch)" by simp
    with le show ?thesis by linarith
  qed
  with Some show ?thesis
    by (simp add: char_to_index_def str_contains_def str_index_def)
qed

lemma upper_char_ligature_st: "upper_char 0xFB06 = [83, 84]"
  by (simp add: upper_char_def upper_runs_def in_run_def upper_special_def)

text \<open>
  C3. The claim asks that every character outside the alphabet maps to the index of the
  space, 26. The code upper-cases the character and tests the result with \<open>in\<close>, a
  substring test. The ligature U+FB06 is not in the alphabet; its upper case is the two
  characters \<open>ST\<close>, which occur inside the alphabet at position 18, and
  \<open>char_to_index\<close> returns 18 for it.
\<close>

theorem char_to_index_ligature_st:
  "char_to_index [0xFB06] = Inr 18 \<and> 0xFB06 \<notin> set ALPHABET
     \<and> char_to_index (cps '' '') = Inr 26"
proof -
  have "char_to_index [0xFB06] = Inr 18"
    using upper_char_ligature_st
    by (simp add: char_to_index_def str_upper_def str_contains_def str_index_def ALPHABET_def cps_def)
  moreover have "0xFB06 \<notin> set ALPHABET"
    by (simp add: ALPHABET_def cps_def)
  moreover have "char_to_index (cps '' '') = Inr 26"
    using upper_char_below_a [of 32]
    by (simp add: char_to_index_def str_upper_def str_contains_def str_index_def ALPHABET_def cps_def)
  ultimately show ?thesis by simp
qed

subsection \<open>The partition into blocks\<close>

lemma upt4: "[0..<4] = [0, 1, 2, 3]"
  by (simp add: upt_rec)

lemma cells4:
  "concat (map (\<lambda>i. map (\<lambda>j. f i j) [0..<4]) [0..<4])
     = [f 0 0, f 0 1, f 0 2, f 0 3, f 1 0, f 1 1, f 1 2, f 1 3,
        f 2 0, f 2 1, f 2 2, f 2 3, f 3 0, f 3 1, f 3 2, f 3 3]"
  by (simp add: upt4)

lemma cells4_nth:
  "i < 4 \<Longrightarrow> j < 4 \<Longrightarrow>
   concat (map (\<lambda>i. map (\<lambda>j. f i j) [0..<4]) [0..<4]) ! (4 * i + j) = f i (j::nat)"
proof -
  assume "i < 4" "j < 4"
  then have "i \<in> {0, 1, 2, 3}" "j \<in> {0, 1, 2, 3}" by auto
  then show ?thesis unfolding cells4 by auto
qed

text \<open>One dimension: the four intervals cut from \<open>0..<n\<close> hold every position once.\<close>

lemma interval4:
  assumes "y < (n::nat)"
  shows "\<exists>!i. i < 4 \<and> i * (n div 4) \<le> y \<and> y < (if i < 3 then (i + 1) * (n div 4) else n)"
proof -
  define b where "b = n div 4"
  have b: "4 * b \<le> n" unfolding b_def by simp
  have cases: "\<And>i. i < 4 \<longleftrightarrow> i = 0 \<or> i = 1 \<or> i = 2 \<or> i = (3::nat)" by auto
  consider "y < b" | "b \<le> y" "y < 2 * b" | "2 * b \<le> y" "y < 3 * b" | "3 * b \<le> y"
    by linarith
  then show ?thesis
  proof cases
    case 1
    show ?thesis
      by (rule ex1I [of _ 0]) (use 1 assms b in \<open>auto simp: cases b_def [symmetric]\<close>)
  next
    case 2
    show ?thesis
      by (rule ex1I [of _ 1]) (use 2 assms b in \<open>auto simp: cases b_def [symmetric]\<close>)
  next
    case 3
    show ?thesis
      by (rule ex1I [of _ 2]) (use 3 assms b in \<open>auto simp: cases b_def [symmetric]\<close>)
  next
    case 4
    show ?thesis
      by (rule ex1I [of _ 3]) (use 4 assms b in \<open>auto simp: cases b_def [symmetric]\<close>)
  qed
qed

lemma shape_w_rows: "img \<noteq> [] \<Longrightarrow> \<forall>row\<in>set img. length row = w \<Longrightarrow> shape_w img = w"
  by (cases img) (simp_all add: shape_w_def)

lemma np_slice_holds:
  assumes "\<forall>row\<in>set img. length row = w" and "y2 \<le> length img" and "x2 \<le> w"
  shows "block_holds img (np_slice img y1 y2 x1 x2) (x1, y1, x2, y2)"
proof -
  have len: "length (np_slice img y1 y2 x1 x2) = y2 - y1"
    using assms(2) by (simp add: np_slice_def)
  have row: "length (np_slice img y1 y2 x1 x2 ! r) = x2 - x1
              \<and> (\<forall>k < x2 - x1. np_slice img y1 y2 x1 x2 ! r ! k = img ! (y1 + r) ! (x1 + k))"
    if r: "r < y2 - y1" for r
  proof -
    from r assms(2) have in_img: "y1 + r < length img" by linarith
    then have w: "length (img ! (y1 + r)) = w" using assms(1) by simp
    from r assms(2) have "np_slice img y1 y2 x1 x2 ! r = take (x2 - x1) (drop x1 (img ! (y1 + r)))"
      by (simp add: np_slice_def)
    then show ?thesis using w assms(3) by simp
  qed
  show ?thesis
    unfolding block_holds_def using len row by simp
qed

lemma upper_bound4: "(if i < 3 then (i + 1) * (n div 4) else n) \<le> (n::nat)"
proof (cases "i < 3")
  case True
  then have "(i + 1) * (n div 4) \<le> 4 * (n div 4)"
    by (intro mult_le_mono1) simp
  also have "\<dots> \<le> n" by simp
  finally show ?thesis using True by simp
next
  case False
  then show ?thesis by simp
qed

lemma block_at_4:
  assumes "img \<noteq> []" and "\<forall>row\<in>set img. length row = w" and "i < 4" and "j < 4"
  shows "snd (block_at img 4 4 i j)
           = (j * (w div 4), i * (length img div 4),
              (if j < 3 then (j + 1) * (w div 4) else w),
              (if i < 3 then (i + 1) * (length img div 4) else length img))"
    and "block_holds img (fst (block_at img 4 4 i j)) (snd (block_at img 4 4 i j))"
proof -
  have sw: "shape_w img = w" using assms(1,2) by (rule shape_w_rows)
  show c: "snd (block_at img 4 4 i j)
           = (j * (w div 4), i * (length img div 4),
              (if j < 3 then (j + 1) * (w div 4) else w),
              (if i < 3 then (i + 1) * (length img div 4) else length img))"
    by (simp add: block_at_def Let_def sw shape_h_def)
  have f: "fst (block_at img 4 4 i j)
           = np_slice img (i * (length img div 4)) (if i < 3 then (i + 1) * (length img div 4) else length img)
               (j * (w div 4)) (if j < 3 then (j + 1) * (w div 4) else w)"
    by (simp add: block_at_def Let_def sw shape_h_def)
  have y2: "(if i < 3 then (i + 1) * (length img div 4) else length img) \<le> length img"
    by (rule upper_bound4)
  have x2: "(if j < 3 then (j + 1) * (w div 4) else w) \<le> w"
    by (rule upper_bound4)
  show "block_holds img (fst (block_at img 4 4 i j)) (snd (block_at img 4 4 i j))"
    unfolding c f by (rule np_slice_holds [OF assms(2) y2 x2])
qed

lemma k16: "k < 16 \<Longrightarrow> \<exists>i j. i < 4 \<and> j < 4 \<and> k = 4 * i + (j::nat)"
  by (rule exI [of _ "k div 4"], rule exI [of _ "k mod 4"]) auto

text \<open>
  C5. For every raster with at least one row and one column, \<open>divide_image_into_blocks\<close>
  returns 16 blocks and their 16 rectangles, in row-major order of a grid of 4 rows and 4
  columns; the bounds are multiples of the height and the width divided by 4, except
  that the last row ends at the height and the last column at the width; every block
  holds the pixels of its rectangle; and every pixel position lies in the rectangle of
  one block and of no other.
\<close>

theorem divide_image_into_blocks_partition:
  assumes "img \<noteq> []" and "\<forall>row\<in>set img. length row = w" and "0 < w"
  shows "\<exists>blocks cs.
           divide_image_into_blocks img (4, 4) = Inr (blocks, cs)
         \<and> length blocks = 16 \<and> length cs = 16
         \<and> (\<forall>i<4. \<forall>j<4. cs ! (4 * i + j)
               = (j * (w div 4), i * (length img div 4),
                  (if j < 3 then (j + 1) * (w div 4) else w),
                  (if i < 3 then (i + 1) * (length img div 4) else length img)))
         \<and> (\<forall>k<16. block_holds img (blocks ! k) (cs ! k))
         \<and> (\<forall>y<length img. \<forall>x<w. \<exists>!k. k < 16 \<and> in_coords (cs ! k) y x)"
proof -
  define cells where "cells = concat (map (\<lambda>i. map (\<lambda>j. block_at img 4 4 i j) [0..<4]) [0..<4])"
  have res: "divide_image_into_blocks img (4, 4) = Inr (map fst cells, map snd cells)"
    by (simp add: divide_image_into_blocks_def cells_def Let_def)
  have len: "length cells = 16"
    unfolding cells_def cells4 by simp
  have cell: "cells ! (4 * i + j) = block_at img 4 4 i j" if "i < 4" "j < 4" for i j
    unfolding cells_def using that by (rule cells4_nth)
  have lt: "4 * i + j < 16" if "i < 4" "j < 4" for i j :: nat
    using that by linarith
  have coords: "map snd cells ! (4 * i + j)
               = (j * (w div 4), i * (length img div 4),
                  (if j < 3 then (j + 1) * (w div 4) else w),
                  (if i < 3 then (i + 1) * (length img div 4) else length img))"
    if "i < 4" "j < 4" for i j
    using that lt [OF that] len cell [OF that] block_at_4(1) [OF assms(1,2) that] by simp
  have holds: "block_holds img (map fst cells ! k) (map snd cells ! k)" if "k < 16" for k
  proof -
    from k16 [OF that] obtain i j where ij: "i < 4" "j < 4" "k = 4 * i + j" by blast
    with that len cell [OF ij(1,2)] block_at_4(2) [OF assms(1,2) ij(1,2)] show ?thesis by simp
  qed
  have cover: "\<exists>!k. k < 16 \<and> in_coords (map snd cells ! k) y x" if y: "y < length img" and x: "x < w" for y x
  proof -
    from interval4 [OF y] obtain i where
      i: "i < 4 \<and> i * (length img div 4) \<le> y
            \<and> y < (if i < 3 then (i + 1) * (length img div 4) else length img)"
      and iu: "\<And>i'. i' < 4 \<and> i' * (length img div 4) \<le> y
                 \<and> y < (if i' < 3 then (i' + 1) * (length img div 4) else length img) \<Longrightarrow> i' = i"
      by (rule ex1E) blast
    from interval4 [OF x] obtain j where
      j: "j < 4 \<and> j * (w div 4) \<le> x \<and> x < (if j < 3 then (j + 1) * (w div 4) else w)"
      and ju: "\<And>j'. j' < 4 \<and> j' * (w div 4) \<le> x
                 \<and> x < (if j' < 3 then (j' + 1) * (w div 4) else w) \<Longrightarrow> j' = j"
      by (rule ex1E) blast
    have i4: "i < 4" and j4: "j < 4" using i j by simp_all
    show ?thesis
    proof (rule ex1I [of _ "4 * i + j"])
      show "4 * i + j < 16 \<and> in_coords (map snd cells ! (4 * i + j)) y x"
        unfolding coords [OF i4 j4] in_coords_def using lt [OF i4 j4] i j by simp
    next
      fix k
      assume k: "k < 16 \<and> in_coords (map snd cells ! k) y x"
      from k16 obtain i' j' where ij: "i' < 4" "j' < 4" "k = 4 * i' + j'"
        using k by blast
      from k have "in_coords (map snd cells ! (4 * i' + j')) y x" using ij by simp
      then have c: "i' * (length img div 4) \<le> y"
          "y < (if i' < 3 then (i' + 1) * (length img div 4) else length img)"
          "j' * (w div 4) \<le> x"
          "x < (if j' < 3 then (j' + 1) * (w div 4) else w)"
        unfolding coords [OF ij(1,2)] in_coords_def by simp_all
      have "i' = i" by (rule iu) (use ij c in blast)
      moreover have "j' = j" by (rule ju) (use ij c in blast)
      ultimately show "k = 4 * i + j" using ij by simp
    qed
  qed
  show ?thesis
  proof (intro exI conjI)
    show "divide_image_into_blocks img (4, 4) = Inr (map fst cells, map snd cells)"
      by (rule res)
    show "length (map fst cells) = 16" and "length (map snd cells) = 16"
      by (simp_all add: len)
    show "\<forall>i<4. \<forall>j<4. map snd cells ! (4 * i + j)
               = (j * (w div 4), i * (length img div 4),
                  (if j < 3 then (j + 1) * (w div 4) else w),
                  (if i < 3 then (i + 1) * (length img div 4) else length img))"
      using coords by blast
    show "\<forall>k<16. block_holds img (map fst cells ! k) (map snd cells ! k)"
      using holds by blast
    show "\<forall>y<length img. \<forall>x<w. \<exists>!k. k < 16 \<and> in_coords (map snd cells ! k) y x"
      using cover by blast
  qed
qed


theorem divide_image_into_blocks_partition_witness:
  "sample_raster \<noteq> [] \<and> list_all (\<lambda>row. length row = 6) sample_raster \<and> (0::nat) < 6
     \<and> (\<exists>blocks cs. divide_image_into_blocks sample_raster (4, 4) = Inr (blocks, cs)
           \<and> length blocks = 16
           \<and> cs ! 15 = (3, 3, 6, 5)
           \<and> (\<forall>y<5. \<forall>x<6. \<exists>!k. k < 16 \<and> in_coords (cs ! k) y x))"
proof -
  have h: "sample_raster \<noteq> []" "\<forall>row\<in>set sample_raster. length row = 6" "(0::nat) < 6"
    by (simp_all add: sample_raster_def)
  have l: "length sample_raster = 5"
    by (simp add: sample_raster_def)
  from divide_image_into_blocks_partition [OF h] obtain blocks cs where
    r: "divide_image_into_blocks sample_raster (4, 4) = Inr (blocks, cs)" "length blocks = 16"
    and c: "\<forall>i<4. \<forall>j<4. cs ! (4 * i + j)
               = (j * (6 div 4), i * (length sample_raster div 4),
                  (if j < 3 then (j + 1) * (6 div 4) else 6),
                  (if i < 3 then (i + 1) * (length sample_raster div 4) else length sample_raster))"
    and u: "\<forall>y<length sample_raster. \<forall>x<6. \<exists>!k. k < 16 \<and> in_coords (cs ! k) y x"
    by blast
  have "cs ! 15 = (3, 3, 6, 5)"
    using c [rule_format, of 3 3] by (simp add: l)
  moreover have "list_all (\<lambda>row. length row = 6) sample_raster"
    by (simp add: sample_raster_def)
  ultimately show ?thesis using r u h by (simp add: l)
qed

subsection \<open>The quadrant code and the fingerprint\<close>










lemma divide_4x4:
  "divide_image_into_blocks
     [[a0, a1, a2, a3], [b0, b1, b2, b3], [c0, c1, c2, c3], [d0, d1, d2, d3]] (4, 4)
   = Inr ([[[a0]], [[a1]], [[a2]], [[a3]], [[b0]], [[b1]], [[b2]], [[b3]],
           [[c0]], [[c1]], [[c2]], [[c3]], [[d0]], [[d1]], [[d2]], [[d3]]],
          [(0, 0, 1, 1), (1, 0, 2, 1), (2, 0, 3, 1), (3, 0, 4, 1),
           (0, 1, 1, 2), (1, 1, 2, 2), (2, 1, 3, 2), (3, 1, 4, 2),
           (0, 2, 1, 3), (1, 2, 2, 3), (2, 2, 3, 3), (3, 2, 4, 3),
           (0, 3, 1, 4), (1, 3, 2, 4), (2, 3, 3, 4), (3, 3, 4, 4)])"
  by (simp add: divide_image_into_blocks_def Let_def cells4 block_at_def shape_h_def shape_w_def
      np_slice_def)

lemma sample_block_0: "fst (block_code sample_lib 6 [[0]]) = cps ''00''"
  by (simp add: block_code_def sample_lib_def)


lemma sample_block_3: "fst (block_code sample_lib 6 [[3]]) = cps ''01''"
  by (simp add: block_code_def sample_lib_def get_vector_quadrant_def np_mean_def
      quadrant_of_direction_def np_degrees_def float_mod_def cps_def)

lemma sample_gray:
  "map_option (cv2_cvtColor sample_lib) (cv2_imread sample_lib [p, 0, 0, 0, 0, 0, 0, 0, 0, 0, 0, 0, 0, 0, 0, 0])
     = Some [[unat p, 0, 0, 0], [0, 0, 0, 0], [0, 0, 0, 0], [0, 0, 0, 0]]"
  by (simp add: sample_lib_def upt4)

lemma sample_binary_string:
  "binary_string_of sample_lib [p, 0, 0, 0, 0, 0, 0, 0, 0, 0, 0, 0, 0, 0, 0, 0]
     = Inr (Some (fst (block_code sample_lib 6 [[unat p]]) @ cps ''000000000000000000000000000000''))"
proof -
  obtain img where i: "cv2_imread sample_lib [p, 0, 0, 0, 0, 0, 0, 0, 0, 0, 0, 0, 0, 0, 0, 0] = Some img"
    and g: "cv2_cvtColor sample_lib img = [[unat p, 0, 0, 0], [0, 0, 0, 0], [0, 0, 0, 0], [0, 0, 0, 0]]"
    using sample_gray [of p] by auto
  show ?thesis
    using sample_block_0
    by (simp add: binary_string_of_def image_to_binary_def i g divide_4x4 Let_def cps_def)
qed

lemma fingerprint_a: "binary_string_of sample_lib image_a = Inr (Some (cps ''00000000000000000000000000000000''))"
  using sample_binary_string [of 0] sample_block_0 by (simp add: image_a_def cps_def)

lemma fingerprint_b: "binary_string_of sample_lib image_b = Inr (Some (cps ''01000000000000000000000000000000''))"
  using sample_binary_string [of 3] sample_block_3 by (simp add: image_b_def cps_def)


lemma fingerprint_unreadable: "length bs \<noteq> 16 \<Longrightarrow> binary_string_of sample_lib bs = Inr None"
  by (simp add: binary_string_of_def image_to_binary_def sample_lib_def)




subsection \<open>The corpus indexer\<close>

lemma index_images_dom:
  "index_images L key kn files groups st = (Inr g, st') \<Longrightarrow> dom g = dom groups"
proof (induction files arbitrary: groups st)
  case Nil
  then show ?case by simp
next
  case (Cons f files)
  obtain name content where f: "f = (name, content)" by (cases f)
  show ?case
    using Cons.prems Cons.IH unfolding f
    by (auto simp: Let_def split: sum.splits option.splits if_splits)
qed

lemma index_images_store:
  "index_images L key kn files groups st = (r, st')
     \<Longrightarrow> mapping_files st' = mapping_files st \<and> raw_img st' = raw_img st"
proof (induction files arbitrary: groups st)
  case Nil
  then show ?case by simp
next
  case (Cons f files)
  obtain name content where f: "f = (name, content)" by (cases f)
  show ?case
    using Cons.prems Cons.IH unfolding f
    by (fastforce simp: Let_def split: sum.splits option.splits if_splits)
qed

lemma index_images_skip:
  assumes "binary_string_of L bad = Inr None"
  shows "index_images L key kn (pre @ (name, bad) # post) groups st
           = index_images L key kn (pre @ post) groups st"
proof (induction pre arbitrary: groups st)
  case Nil
  then show ?case using assms by simp
next
  case (Cons f pre)
  obtain n c where f: "f = (n, c)" by (cases f)
  show ?case
    unfolding f by (simp only: append_Cons index_images.simps Cons.IH)
qed

lemma decrypt_files_skip:
  assumes "binary_string_of L bad = Inr None"
  shows "decrypt_files L key (pre @ bad # post) = decrypt_files L key (pre @ post)"
proof (induction pre)
  case Nil
  then show ?case using assms by simp
next
  case (Cons f pre)
  then show ?case
    by (simp split: sum.splits option.splits)
qed

lemma unreadable_None:
  "cv2_imread L bad = None \<Longrightarrow> image_to_binary L bad t = Inr None \<and> binary_string_of L bad = Inr None"
  by (simp add: image_to_binary_def binary_string_of_def)

lemma bucket_names_distinct: "distinct (map str_int (py_range ALPHABET_SIZE))"
  by (simp add: py_range_def ALPHABET_SIZE_29 upt_rec str_int_def digits.simps)

lemma dom_empty_groups: "dom empty_groups = set (map str_int (py_range ALPHABET_SIZE))"
  by (simp add: empty_groups_def dom_map_of_conv_image_fst image_image)

lemma bucket_names_set: "set (map str_int (py_range ALPHABET_SIZE)) = str_int ` {0..28}"
proof -
  have "int ` {0..<29} = {0..<29}"
    using image_int_atLeastLessThan [of 0 29] by simp
  also have "\<dots> = {0..28::int}"
    by auto
  finally have "set (py_range ALPHABET_SIZE) = {0..28}"
    by (simp add: py_range_def ALPHABET_SIZE_29)
  then show ?thesis by (simp add: image_image)
qed

lemma index_images_groups_indep:
  "fst (index_images L key kn files groups st) = fst (index_images L key kn files groups st0)"
proof (induction files arbitrary: groups st st0)
  case Nil
  then show ?case by simp
next
  case (Cons f files)
  obtain name content where f: "f = (name, content)" by (cases f)
  show ?case
  proof (cases "binary_string_of L content")
    case (Inl e)
    then show ?thesis by (simp add: f)
  next
    case (Inr r)
    show ?thesis
    proof (cases r)
      case None
      with Inr Cons.IH [of groups st st0] show ?thesis by (simp add: f)
    next
      case (Some b)
      show ?thesis
      proof (cases "b = []")
        case True
        with Inr Some Cons.IH [of groups st st0] show ?thesis by (simp add: f)
      next
        case False
        show ?thesis
        proof (cases "compute_char_index L (Some b) key")
          case (Inl e)
          with Inr Some False show ?thesis by (simp add: f)
        next
          case idx: (Inr idx)
          show ?thesis
          proof (cases "groups (str_int idx)")
            case None
            with Inr Some False idx show ?thesis by (simp add: f Let_def)
          next
            case names: (Some names)
            define g where "g = groups(str_int idx \<mapsto> names @ [name])"
            define upd where "upd = (\<lambda>s::store.
                (let st1 = s\<lparr>key_dirs := insert [kn, str_int idx] (key_dirs s)\<rparr>
                 in if key_files st1 [kn, str_int idx, name] = None
                    then st1\<lparr>key_files := (key_files st1)([kn, str_int idx, name] \<mapsto> content)\<rparr>
                    else st1))"
            have step: "index_images L key kn (f # files) groups s
                        = index_images L key kn files g (upd s)" for s
              using Inr Some False idx names by (simp add: f Let_def g_def upd_def)
            show ?thesis
              unfolding step by (rule Cons.IH)
          qed
        qed
      qed
    qed
  qed
qed

lemma initialize_fresh_fst:
  assumes "mapping_files st (safe_key_name L key) = None" and "raw_img st = Some entries"
  shows "fst (initialize_key_mapping L st key)
         = (case fst (index_images L key (safe_key_name L key) (list_image_files entries) empty_groups st) of
              Inl e \<Rightarrow> Inl e | Inr g \<Rightarrow> Inr (g, True))"
proof -
  define st1 where "st1 = st\<lparr>key_dirs := insert [safe_key_name L key] (key_dirs st)\<rparr>"
  obtain r st2 where i: "index_images L key (safe_key_name L key) (list_image_files entries) empty_groups st1 = (r, st2)"
    by (cases "index_images L key (safe_key_name L key) (list_image_files entries) empty_groups st1")
  have "fst (index_images L key (safe_key_name L key) (list_image_files entries) empty_groups st) = r"
    using index_images_groups_indep [of L key "safe_key_name L key" "list_image_files entries" empty_groups st st1] i
    by simp
  then show ?thesis
    using assms i by (cases r) (simp_all add: initialize_key_mapping_def Let_def st1_def)
qed

subsection \<open>The concrete instance, evaluated\<close>

lemma image_extensions_upper:
  "map str_upper image_extensions = [cps ''.JPG'', cps ''.JPEG'', cps ''.PNG'', cps ''.BMP'']"
  by (simp add: image_extensions_def str_upper_def cps_def upper_char_below_a upper_char_lower)

lemma sample_image_files:
  "list_image_files sample_corpus
     = [(cps ''a.jpg'', image_a), (cps ''a2.jpg'', image_a), (cps ''b.png'', image_b),
        (cps ''broken.png'', [7])]"
proof -
  have u: "str_upper (cps ''.jpg'') = cps ''.JPG''" "str_upper (cps ''.jpeg'') = cps ''.JPEG''"
    "str_upper (cps ''.png'') = cps ''.PNG''" "str_upper (cps ''.bmp'') = cps ''.BMP''"
    using image_extensions_upper by (simp_all add: image_extensions_def)
  show ?thesis
    unfolding list_image_files_def image_extensions_def list.map u
    by (simp add: glob_ext_def sample_corpus_def str_endswith_def cps_def)
qed

lemma sample_safe_key_name: "safe_key_name sample_lib (cps ''K'') = cps ''K''"
  by (simp add: safe_key_name_def sample_lib_def cps_def)

lemma sample_index_a:
  "compute_char_index sample_lib (Some (cps ''00000000000000000000000000000000'')) (cps ''K'') = Inr 17"
  by (simp add: compute_char_index_def cps_def utf8_char_def sample_lib_def int_from_bytes_big_def
      ALPHABET_SIZE_29)

lemma sample_index_b:
  "compute_char_index sample_lib (Some (cps ''01000000000000000000000000000000'')) (cps ''K'') = Inr 18"
  by (simp add: compute_char_index_def cps_def utf8_char_def sample_lib_def int_from_bytes_big_def
      ALPHABET_SIZE_29)

lemma strip_K: "str_strip (cps '' K '') = cps ''K''" "str_strip (cps ''K'') = cps ''K''"
  by (simp_all add: str_strip_def py_isspace_def cps_def)

lemma str_int_17_18: "str_int 17 = cps ''17''" "str_int 18 = cps ''18''"
  by (simp_all add: str_int_def digits.simps cps_def)

lemma empty_groups_17_18: "empty_groups (cps ''17'') = Some []" "empty_groups (cps ''18'') = Some []"
  unfolding empty_groups_def
  by (simp_all add: py_range_def ALPHABET_SIZE_29 upt_rec str_int_def digits.simps cps_def)

lemma sample_index_images:
  "\<exists>st2. index_images sample_lib (cps ''K'') (cps ''K'') (list_image_files sample_corpus) empty_groups st
           = (Inr sample_mapping, st2)
         \<and> mapping_files st2 = mapping_files st
         \<and> (key_files st = Map.empty \<longrightarrow>
              key_files st2 [cps ''K'', cps ''17'', cps ''a.jpg''] = Some image_a
            \<and> key_files st2 [cps ''K'', cps ''17'', cps ''a2.jpg''] = Some image_a
            \<and> key_files st2 [cps ''K'', cps ''18'', cps ''b.png''] = Some image_b)"
proof -
  have ne: "cps ''00000000000000000000000000000000'' \<noteq> []" "cps ''01000000000000000000000000000000'' \<noteq> []"
    by (simp_all add: cps_def)
  have names: "cps ''17'' \<noteq> cps ''18''" "cps ''a.jpg'' \<noteq> cps ''a2.jpg''"
    by (simp_all add: cps_def)
  have bad: "binary_string_of sample_lib [7] = Inr None"
    by (rule fingerprint_unreadable) simp
  show ?thesis
    unfolding sample_image_files
    using ne names
    by (simp add: fingerprint_a fingerprint_b bad sample_index_a sample_index_b str_int_17_18
        empty_groups_17_18 sample_mapping_def Let_def fun_upd_twist)
qed

lemma sample_build:
  "\<exists>st'. initialize_key_mapping sample_lib sample_store (cps ''K'') = (Inr (sample_mapping, True), st')
         \<and> mapping_files st' = [cps ''K'' \<mapsto> sample_mapping]
         \<and> key_files st' [cps ''K'', cps ''17'', cps ''a.jpg''] = Some image_a
         \<and> key_files st' [cps ''K'', cps ''17'', cps ''a2.jpg''] = Some image_a
         \<and> key_files st' [cps ''K'', cps ''18'', cps ''b.png''] = Some image_b"
proof -
  define st1 where "st1 = sample_store\<lparr>key_dirs := insert [cps ''K''] (key_dirs sample_store)\<rparr>"
  have kf: "key_files st1 = Map.empty" and mf: "mapping_files st1 = Map.empty"
    by (simp_all add: st1_def sample_store_def)
  from sample_index_images [of st1] obtain st2 where
    i: "index_images sample_lib (cps ''K'') (cps ''K'') (list_image_files sample_corpus) empty_groups st1
          = (Inr sample_mapping, st2)"
    and m: "mapping_files st2 = mapping_files st1"
    and f: "key_files st2 [cps ''K'', cps ''17'', cps ''a.jpg''] = Some image_a"
      "key_files st2 [cps ''K'', cps ''17'', cps ''a2.jpg''] = Some image_a"
      "key_files st2 [cps ''K'', cps ''18'', cps ''b.png''] = Some image_b"
    using kf by blast
  have "initialize_key_mapping sample_lib sample_store (cps ''K'')
          = (Inr (sample_mapping, True), st2\<lparr>mapping_files := (mapping_files st2)(cps ''K'' \<mapsto> sample_mapping)\<rparr>)"
    using i by (simp add: initialize_key_mapping_def sample_safe_key_name Let_def st1_def [symmetric])
       (simp add: sample_store_def st1_def)
  then show ?thesis
    using m mf f by simp
qed

subsection \<open>Properties of the corpus indexer\<close>

text \<open>
  C9. When the corpus directory is missing and no mapping is stored for the key,
  \<open>initialize_key_mapping\<close> raises, \<open>api_encrypt_text\<close> answers with status 500 and that
  error, and no mapping file is written. A later call with the corpus present returns
  what it would have returned without the failed attempt, and what it returns is marked
  as built in that call.
\<close>

theorem corpus_missing_aborts:
  assumes "raw_img st = None"
    and "key = str_strip k" and "key \<noteq> []" and "str_strip t \<noteq> []"
    and "mapping_files st (safe_key_name L key) = None"
  shows "\<exists>st'. initialize_key_mapping L st key = (Inl RuntimeError, st')
      \<and> api_encrypt_text L rng st \<lparr>req_key = Some k, req_text = Some t\<rparr> = (Error500 RuntimeError, st')
      \<and> mapping_files st' = mapping_files st
      \<and> (\<forall>entries.
            fst (initialize_key_mapping L (st'\<lparr>raw_img := Some entries\<rparr>) key)
              = fst (initialize_key_mapping L (st\<lparr>raw_img := Some entries\<rparr>) key)
          \<and> (\<forall>m b. fst (initialize_key_mapping L (st'\<lparr>raw_img := Some entries\<rparr>) key) = Inr (m, b) \<longrightarrow> b))"
proof -
  define st' where "st' = st\<lparr>key_dirs := insert [safe_key_name L key] (key_dirs st)\<rparr>"
  have init: "initialize_key_mapping L st key = (Inl RuntimeError, st')"
    using assms(1,5) by (simp add: initialize_key_mapping_def Let_def st'_def)
  have api: "api_encrypt_text L rng st \<lparr>req_key = Some k, req_text = Some t\<rparr> = (Error500 RuntimeError, st')"
    using assms(2,3,4) init by (simp add: api_encrypt_text_def Let_def)
  have mf: "mapping_files st' = mapping_files st"
    by (simp add: st'_def)
  have later: "fst (initialize_key_mapping L (st'\<lparr>raw_img := Some entries\<rparr>) key)
              = fst (initialize_key_mapping L (st\<lparr>raw_img := Some entries\<rparr>) key)
          \<and> (\<forall>m b. fst (initialize_key_mapping L (st'\<lparr>raw_img := Some entries\<rparr>) key) = Inr (m, b) \<longrightarrow> b)"
    for entries
  proof -
    have a: "mapping_files (st'\<lparr>raw_img := Some entries\<rparr>) (safe_key_name L key) = None"
      "raw_img (st'\<lparr>raw_img := Some entries\<rparr>) = Some entries"
      "mapping_files (st\<lparr>raw_img := Some entries\<rparr>) (safe_key_name L key) = None"
      "raw_img (st\<lparr>raw_img := Some entries\<rparr>) = Some entries"
      using assms(5) by (simp_all add: st'_def)
    show ?thesis
      unfolding initialize_fresh_fst [OF a(1,2)] initialize_fresh_fst [OF a(3,4)]
      using index_images_groups_indep
              [of L key "safe_key_name L key" "list_image_files entries" empty_groups
                  "st'\<lparr>raw_img := Some entries\<rparr>" "st\<lparr>raw_img := Some entries\<rparr>"]
      by (auto split: sum.splits)
  qed
  show ?thesis
    using init api mf later by blast
qed

theorem corpus_missing_aborts_witness:
  "raw_img (sample_store\<lparr>raw_img := None\<rparr>) = None
   \<and> cps ''K'' = str_strip (cps '' K '') \<and> cps ''K'' \<noteq> [] \<and> str_strip (cps ''rs'') \<noteq> []
   \<and> mapping_files (sample_store\<lparr>raw_img := None\<rparr>) (safe_key_name sample_lib (cps ''K'')) = None
   \<and> (\<exists>st'. api_encrypt_text sample_lib (\<lambda>k. k) (sample_store\<lparr>raw_img := None\<rparr>)
                 \<lparr>req_key = Some (cps '' K ''), req_text = Some (cps ''rs'')\<rparr>
               = (Error500 RuntimeError, st')
             \<and> mapping_files st' = Map.empty)"
proof -
  have h: "raw_img (sample_store\<lparr>raw_img := None\<rparr>) = None"
    "cps ''K'' = str_strip (cps '' K '')" "cps ''K'' \<noteq> []" "str_strip (cps ''rs'') \<noteq> []"
    "mapping_files (sample_store\<lparr>raw_img := None\<rparr>) (safe_key_name sample_lib (cps ''K'')) = None"
    by (simp_all add: strip_K sample_store_def) (simp_all add: cps_def str_strip_def py_isspace_def)
  have m: "mapping_files (sample_store\<lparr>raw_img := None\<rparr>) = Map.empty"
    by (simp add: sample_store_def)
  from corpus_missing_aborts [OF h, of "\<lambda>k. k"] h m show ?thesis
    by metis
qed

text \<open>
  C6. The mapping returned by a build of \<open>initialize_key_mapping\<close> (second component
  \<open>True\<close>) has the 29 keys \<open>str(0)\<close> to \<open>str(28)\<close>, whatever the corpus holds, and it is
  the mapping stored for the name of the key.
\<close>

theorem fresh_mapping_has_all_buckets:
  assumes "initialize_key_mapping L st key = (Inr (m, True), st')"
  shows "dom m = str_int ` {0..28} \<and> card (dom m) = 29
         \<and> mapping_files st' (safe_key_name L key) = Some m"
proof -
  have none: "mapping_files st (safe_key_name L key) = None"
    using assms by (cases "mapping_files st (safe_key_name L key)")
      (simp_all add: initialize_key_mapping_def Let_def)
  then obtain entries where e: "raw_img st = Some entries"
    using assms by (cases "raw_img st") (simp_all add: initialize_key_mapping_def Let_def)
  define st1 where "st1 = st\<lparr>key_dirs := insert [safe_key_name L key] (key_dirs st)\<rparr>"
  obtain r st2 where i: "index_images L key (safe_key_name L key) (list_image_files entries) empty_groups st1 = (r, st2)"
    by (cases "index_images L key (safe_key_name L key) (list_image_files entries) empty_groups st1")
  from assms none e i have r: "r = Inr m"
    and st': "st' = st2\<lparr>mapping_files := (mapping_files st2)(safe_key_name L key \<mapsto> m)\<rparr>"
    by (cases r; simp add: initialize_key_mapping_def Let_def st1_def)+
  from index_images_dom [OF i [unfolded r]] have d: "dom m = str_int ` {0..28}"
    by (simp only: dom_empty_groups bucket_names_set)
  have "card (dom m) = 29"
    using distinct_card [OF bucket_names_distinct]
    by (simp add: index_images_dom [OF i [unfolded r]] dom_empty_groups py_range_def ALPHABET_SIZE_29)
  with d st' show ?thesis by simp
qed

theorem fresh_mapping_has_all_buckets_witness:
  "\<exists>st'. initialize_key_mapping sample_lib sample_store (cps ''K'') = (Inr (sample_mapping, True), st')
         \<and> dom sample_mapping = str_int ` {0..28} \<and> card (dom sample_mapping) = 29
         \<and> mapping_files st' (safe_key_name sample_lib (cps ''K'')) = Some sample_mapping"
proof -
  from sample_build obtain st' where
    i: "initialize_key_mapping sample_lib sample_store (cps ''K'') = (Inr (sample_mapping, True), st')"
    by blast
  from fresh_mapping_has_all_buckets [OF i] i show ?thesis by blast
qed

text \<open>
  C8. For an image that cannot be read, \<open>image_to_binary\<close> returns \<open>None\<close>; the loop
  of the indexer and the loop of the decoder give the result they give without that
  image; and decoding that image alone answers with the empty text, which is shorter
  than the list of images.
\<close>

theorem unreadable_image_skipped:
  assumes "cv2_imread L bad = None"
  shows "image_to_binary L bad t = Inr None
     \<and> index_images L key kn (pre @ (name, bad) # post) groups st
         = index_images L key kn (pre @ post) groups st
     \<and> decrypt_files L key (fs1 @ bad # fs2) = decrypt_files L key (fs1 @ fs2)
     \<and> (str_strip k \<noteq> [] \<longrightarrow> api_decrypt_images L (Some k) [bad] = Ok200 [])
     \<and> (str_strip k \<noteq> [] \<and> fs1 @ fs2 \<noteq> [] \<longrightarrow>
          api_decrypt_images L (Some k) (fs1 @ bad # fs2) = api_decrypt_images L (Some k) (fs1 @ fs2))"
proof -
  from unreadable_None [OF assms] have n: "image_to_binary L bad t = Inr None"
    and b: "binary_string_of L bad = Inr None"
    by simp_all
  have d: "decrypt_files L key' (fs1 @ bad # fs2) = decrypt_files L key' (fs1 @ fs2)" for key'
    by (rule decrypt_files_skip [OF b])
  have one: "str_strip k \<noteq> [] \<longrightarrow> api_decrypt_images L (Some k) [bad] = Ok200 []"
    using b by (simp add: api_decrypt_images_def Let_def)
  have many: "str_strip k \<noteq> [] \<and> fs1 @ fs2 \<noteq> [] \<longrightarrow>
          api_decrypt_images L (Some k) (fs1 @ bad # fs2) = api_decrypt_images L (Some k) (fs1 @ fs2)"
    using d [of "str_strip k"] by (simp add: api_decrypt_images_def Let_def)
  show ?thesis
    using n index_images_skip [OF b] d one many by blast
qed

theorem unreadable_image_skipped_witness:
  "cv2_imread sample_lib [7] = None
   \<and> image_to_binary sample_lib [7] 6 = Inr None
   \<and> decrypt_files sample_lib (cps ''K'') ([image_b] @ [7] # [image_a])
        = decrypt_files sample_lib (cps ''K'') ([image_b] @ [image_a])
   \<and> api_decrypt_images sample_lib (Some (cps ''K'')) [[7]] = Ok200 []"
proof -
  have h: "cv2_imread sample_lib [7] = None"
    by (simp add: sample_lib_def)
  have k: "str_strip (cps ''K'') \<noteq> []"
    unfolding strip_K by (simp add: cps_def)
  from unreadable_image_skipped [OF h, of 6 "cps ''K''" "cps ''K''" "[]" "[]" "[]" Map.empty sample_store
      "[image_b]" "[image_a]" "cps ''K''"] h k
  show ?thesis by blast
qed

subsection \<open>The choice of images\<close>

lemma random_choice_in:
  "random_choice rng seq = Inr (x, rng') \<Longrightarrow> x \<in> set seq"
  by (auto simp: random_choice_def split: if_splits)

lemma used_before_0: "used_before urls 0 b = {}"
  by (simp add: used_before_def)

lemma used_before_Cons:
  "used_before ((kn, b0, f0) # urls) (Suc n) b = (if b = b0 then {f0} else {}) \<union> used_before urls n b"
proof -
  have "(\<exists>k<Suc n. snd (((kn, b0, f0) # urls) ! k) = (b, f))
          \<longleftrightarrow> ((b0, f0) = (b, f) \<or> (\<exists>k<n. snd (urls ! k) = (b, f)))" for f
    by (auto simp: less_Suc_eq_0_disj)
  then show ?thesis
    by (auto simp: used_before_def)
qed

lemma encrypt_chars_norepeat:
  assumes "encrypt_chars m kn tx used rng = Inr urls"
  shows "\<forall>n<length urls. \<exists>b f U. urls ! n = (kn, b, f) \<and> used b = Some U \<and> f \<in> set (bucket m b)
            \<and> (f \<in> U \<union> used_before urls n b \<longrightarrow> set (bucket m b) \<subseteq> U \<union> used_before urls n b)"
  using assms
proof (induction tx arbitrary: used rng urls)
  case Nil
  then show ?case by simp
next
  case (Cons ch tx)
  from Cons.prems obtain idx where idx: "char_to_index [ch] = Inr idx"
    by (cases "char_to_index [ch]") simp_all
  define b0 where "b0 = str_int idx"
  have step: "encrypt_chars m kn (ch # tx) used rng =
      (if bucket m b0 = [] then encrypt_chars m kn tx used rng
       else case used b0 of
              None \<Rightarrow> Inl KeyError
            | Some U \<Rightarrow>
                (case random_choice rng
                        (if filter (\<lambda>f. f \<notin> U) (bucket m b0) \<noteq> []
                         then filter (\<lambda>f. f \<notin> U) (bucket m b0) else bucket m b0) of
                   Inl e \<Rightarrow> Inl e
                 | Inr (f, rng') \<Rightarrow>
                     (case encrypt_chars m kn tx (used(b0 \<mapsto> insert f U)) rng' of
                        Inl e \<Rightarrow> Inl e
                      | Inr urls \<Rightarrow> Inr ((kn, b0, f) # urls))))"
    unfolding b0_def bucket_def encrypt_chars.simps idx Let_def by simp
  note prem = Cons.prems [unfolded step]
  show ?case
  proof (cases "bucket m b0 = []")
    case True
    with prem have "encrypt_chars m kn tx used rng = Inr urls"
      by simp
    then show ?thesis by (rule Cons.IH)
  next
    case False
    with prem obtain U0 where U0: "used b0 = Some U0"
      by (cases "used b0") simp_all
    define seq where "seq = (if filter (\<lambda>f. f \<notin> U0) (bucket m b0) \<noteq> [] then filter (\<lambda>f. f \<notin> U0) (bucket m b0)
                              else bucket m b0)"
    from prem False U0 obtain f0 rng' where ch: "random_choice rng seq = Inr (f0, rng')"
      by (cases "random_choice rng seq") (auto simp: seq_def)
    from prem False U0 ch obtain urls' where
      rec: "encrypt_chars m kn tx (used(b0 \<mapsto> insert f0 U0)) rng' = Inr urls'"
      and urls: "urls = (kn, b0, f0) # urls'"
      by (cases "encrypt_chars m kn tx (used(b0 \<mapsto> insert f0 U0)) rng'")
        (auto simp: seq_def)
    have f0seq: "f0 \<in> set seq" using ch by (rule random_choice_in)
    have f0: "f0 \<in> set (bucket m b0)"
      using f0seq by (auto simp: seq_def split: if_splits)
    have first: "f0 \<in> U0 \<longrightarrow> set (bucket m b0) \<subseteq> U0"
    proof
      assume in_U: "f0 \<in> U0"
      have "filter (\<lambda>f. f \<notin> U0) (bucket m b0) = []"
      proof (rule ccontr)
        assume "filter (\<lambda>f. f \<notin> U0) (bucket m b0) \<noteq> []"
        with f0seq have "f0 \<notin> U0" by (simp add: seq_def)
        with in_U show False by simp
      qed
      then show "set (bucket m b0) \<subseteq> U0"
        by (auto simp: filter_empty_conv)
    qed
    note IH = Cons.IH [OF rec]
    show ?thesis
    proof (intro allI impI)
      fix n
      assume n: "n < length urls"
      show "\<exists>b f U. urls ! n = (kn, b, f) \<and> used b = Some U \<and> f \<in> set (bucket m b)
            \<and> (f \<in> U \<union> used_before urls n b \<longrightarrow> set (bucket m b) \<subseteq> U \<union> used_before urls n b)"
      proof (cases n)
        case 0
        then show ?thesis
          using U0 f0 first by (simp add: urls used_before_0)
      next
        case (Suc n')
        with n have "n' < length urls'" by (simp add: urls)
        with IH obtain b f U' where
          u: "urls' ! n' = (kn, b, f)" and U': "(used(b0 \<mapsto> insert f0 U0)) b = Some U'"
          and fb: "f \<in> set (bucket m b)"
          and imp: "f \<in> U' \<union> used_before urls' n' b \<longrightarrow> set (bucket m b) \<subseteq> U' \<union> used_before urls' n' b"
          by blast
        show ?thesis
        proof (cases "b = b0")
          case True
          with U' have "U' = insert f0 U0" by simp
          then have eq: "U0 \<union> used_before urls n b = U' \<union> used_before urls' n' b"
            using True by (auto simp: urls Suc used_before_Cons)
          have "urls ! n = (kn, b, f)"
            using u by (simp add: urls Suc)
          moreover have "used b = Some U0"
            using U0 True by simp
          moreover have "f \<in> U0 \<union> used_before urls n b
                           \<longrightarrow> set (bucket m b) \<subseteq> U0 \<union> used_before urls n b"
            unfolding eq by (rule imp)
          ultimately show ?thesis using fb by blast
        next
          case False
          with U' have "used b = Some U'" by simp
          moreover have eq: "used_before urls n b = used_before urls' n' b"
            using False by (simp add: urls Suc used_before_Cons)
          moreover have "urls ! n = (kn, b, f)"
            using u by (simp add: urls Suc)
          moreover have "f \<in> U' \<union> used_before urls n b
                           \<longrightarrow> set (bucket m b) \<subseteq> U' \<union> used_before urls n b"
            unfolding eq by (rule imp)
          ultimately show ?thesis using fb by blast
        qed
      qed
    qed
  qed
qed

lemma empty_used_Some: "empty_used b = Some U \<Longrightarrow> U = {}"
  by (auto simp: empty_used_def dest: map_of_SomeD)

text \<open>
  C7. In the answer of one call of \<open>api_encrypt_text\<close>, every chosen file name is in the
  bucket of its position, and a file name that was already chosen for that bucket
  earlier in the answer is chosen again only when every file name of the bucket was
  chosen earlier in the answer. The call leaves the file system as
  \<open>initialize_key_mapping\<close> left it: the sets of used names are not kept.
\<close>

theorem encrypt_no_early_repeat:
  assumes "api_encrypt_text L rng st data = (Ok200 (urls, built), st')"
  shows "\<exists>m. initialize_key_mapping L st (str_strip (case req_key data of None \<Rightarrow> [] | Some k \<Rightarrow> k))
               = (Inr (m, built), st')
       \<and> (\<forall>n<length urls. \<exists>kn b f. urls ! n = (kn, b, f) \<and> f \<in> set (bucket m b)
             \<and> (f \<in> used_before urls n b \<longrightarrow> set (bucket m b) \<subseteq> used_before urls n b))"
proof -
  define key where "key = str_strip (case req_key data of None \<Rightarrow> [] | Some k \<Rightarrow> k)"
  define tx where "tx = str_strip (case req_text data of None \<Rightarrow> [] | Some t \<Rightarrow> t)"
  from assms have ne: "key \<noteq> []" "tx \<noteq> []"
    by (auto simp: api_encrypt_text_def Let_def key_def tx_def split: if_splits)
  obtain r st1 where init: "initialize_key_mapping L st key = (r, st1)"
    by (cases "initialize_key_mapping L st key")
  with assms ne obtain m b where r: "r = Inr (m, b)"
    by (cases r) (auto simp: api_encrypt_text_def Let_def key_def tx_def)
  from assms ne init r have enc: "encrypt_chars m (safe_key_name L key) tx empty_used rng = Inr urls"
    and eq: "b = built" "st1 = st'"
    by (auto simp: api_encrypt_text_def Let_def key_def tx_def split: sum.splits)
  have "\<exists>kn b f. urls ! n = (kn, b, f) \<and> f \<in> set (bucket m b)
             \<and> (f \<in> used_before urls n b \<longrightarrow> set (bucket m b) \<subseteq> used_before urls n b)"
    if "n < length urls" for n
  proof -
    from encrypt_chars_norepeat [OF enc] that obtain b f U where
      u: "urls ! n = (safe_key_name L key, b, f)" "empty_used b = Some U" "f \<in> set (bucket m b)"
      "f \<in> U \<union> used_before urls n b \<longrightarrow> set (bucket m b) \<subseteq> U \<union> used_before urls n b"
      by blast
    from empty_used_Some [OF u(2)] u show ?thesis by simp
  qed
  with init r eq show ?thesis
    unfolding key_def by blast
qed

lemma char_to_index_r: "char_to_index (cps ''r'') = Inr 17"
  using upper_char_lower [of 114]
  by (simp add: char_to_index_def str_upper_def str_contains_def str_index_def ALPHABET_def cps_def)

lemma empty_used_17: "empty_used (cps ''17'') = Some {}"
  unfolding empty_used_def
  by (simp add: py_range_def ALPHABET_SIZE_29 upt_rec str_int_def digits.simps cps_def)

lemma sample_bucket_17: "sample_mapping (cps ''17'') = Some [cps ''a.jpg'', cps ''a2.jpg'']"
  by (simp add: sample_mapping_def cps_def)

lemma sample_encrypt_rrr:
  "encrypt_chars sample_mapping (cps ''K'') (cps ''rrr'') empty_used (\<lambda>k. k)
     = Inr [(cps ''K'', cps ''17'', cps ''a.jpg''), (cps ''K'', cps ''17'', cps ''a2.jpg''),
            (cps ''K'', cps ''17'', cps ''a.jpg'')]"
proof -
  have r: "char_to_index [114] = Inr 17"
    using char_to_index_r by (simp add: cps_def)
  have ne: "cps ''a.jpg'' \<noteq> cps ''a2.jpg''"
    by (simp add: cps_def)
  have t: "cps ''rrr'' = [114, 114, 114]"
    by (simp add: cps_def)
  show ?thesis
    unfolding t using ne
    by (simp add: r str_int_17_18 sample_bucket_17 empty_used_17 random_choice_def Let_def)
qed

theorem encrypt_no_early_repeat_witness:
  "\<exists>st'. api_encrypt_text sample_lib (\<lambda>k. k) sample_store
             \<lparr>req_key = Some (cps '' K ''), req_text = Some (cps ''rrr'')\<rparr>
           = (Ok200 ([(cps ''K'', cps ''17'', cps ''a.jpg''), (cps ''K'', cps ''17'', cps ''a2.jpg''),
                      (cps ''K'', cps ''17'', cps ''a.jpg'')], True), st')
         \<and> cps ''a2.jpg'' \<notin> used_before [(cps ''K'', cps ''17'', cps ''a.jpg''), (cps ''K'', cps ''17'', cps ''a2.jpg''),
                      (cps ''K'', cps ''17'', cps ''a.jpg'')] 1 (cps ''17'')
         \<and> cps ''a.jpg'' \<in> used_before [(cps ''K'', cps ''17'', cps ''a.jpg''), (cps ''K'', cps ''17'', cps ''a2.jpg''),
                      (cps ''K'', cps ''17'', cps ''a.jpg'')] 2 (cps ''17'')
         \<and> set (bucket sample_mapping (cps ''17''))
               \<subseteq> used_before [(cps ''K'', cps ''17'', cps ''a.jpg''), (cps ''K'', cps ''17'', cps ''a2.jpg''),
                      (cps ''K'', cps ''17'', cps ''a.jpg'')] 2 (cps ''17'')"
proof -
  define urls where "urls = [(cps ''K'', cps ''17'', cps ''a.jpg''), (cps ''K'', cps ''17'', cps ''a2.jpg''),
                      (cps ''K'', cps ''17'', cps ''a.jpg'')]"
  from sample_build obtain st' where
    b: "initialize_key_mapping sample_lib sample_store (cps ''K'') = (Inr (sample_mapping, True), st')"
    by blast
  have ne: "cps ''K'' \<noteq> []" "cps ''rrr'' \<noteq> []" "cps ''a.jpg'' \<noteq> cps ''a2.jpg''"
    by (simp_all add: cps_def)
  have s: "str_strip (cps ''rrr'') = cps ''rrr''"
    by (simp add: str_strip_def py_isspace_def cps_def)
  have api: "api_encrypt_text sample_lib (\<lambda>k. k) sample_store
             \<lparr>req_key = Some (cps '' K ''), req_text = Some (cps ''rrr'')\<rparr>
           = (Ok200 (urls, True), st')"
    using ne by (simp add: api_encrypt_text_def strip_K s b sample_safe_key_name sample_encrypt_rrr urls_def Let_def)
  from encrypt_no_early_repeat [OF api] obtain m where
    m: "initialize_key_mapping sample_lib sample_store (str_strip (cps '' K '')) = (Inr (m, True), st')"
    and u: "\<forall>n<length urls. \<exists>kn b f. urls ! n = (kn, b, f) \<and> f \<in> set (bucket m b)
             \<and> (f \<in> used_before urls n b \<longrightarrow> set (bucket m b) \<subseteq> used_before urls n b)"
    by auto
  from m b have mm: "m = sample_mapping" by (simp add: strip_K)
  have in2: "cps ''a.jpg'' \<in> used_before urls 2 (cps ''17'')"
    unfolding used_before_def urls_def by (simp, rule exI [of _ 0]) simp
  have out1: "cps ''a2.jpg'' \<notin> used_before urls 1 (cps ''17'')"
    unfolding used_before_def urls_def using ne by simp
  from u [rule_format, of 2] in2
  have "set (bucket sample_mapping (cps ''17'')) \<subseteq> used_before urls 2 (cps ''17'')"
    by (simp add: urls_def mm)
  with api in2 out1 show ?thesis
    unfolding urls_def by blast
qed

subsection \<open>Encoding and decoding\<close>

lemma space_nth: "ALPHABET ! 26 = 32"
  by (simp add: ALPHABET_def cps_def)

lemma str_find_single_in: "str_find s [a] = None \<longleftrightarrow> a \<notin> set s"
  using str_find_single_None [of a s] str_find_single_Some [of a s] by auto

lemma symbol_of_single:
  assumes "upper_char c = [a]"
  shows "alphabet_symbol_of c = (if a \<in> set ALPHABET then [a] else cps '' '')"
proof (cases "a \<in> set ALPHABET")
  case True
  then obtain i where i: "str_find ALPHABET [a] = Some i"
    using str_find_single_Some by blast
  from str_find_single_nth [OF i] have "ALPHABET ! i = a" by simp
  with True i assms show ?thesis
    by (simp add: alphabet_symbol_of_def char_to_index_def str_upper_def str_contains_def str_index_def)
next
  case False
  then have "str_find ALPHABET [a] = None"
    by (rule str_find_single_None)
  with False assms show ?thesis
    using space_index space_nth
    by (simp add: alphabet_symbol_of_def char_to_index_def str_upper_def str_contains_def cps_def)
qed

lemma upper_char_cases:
  "(\<exists>a. upper_char c = [a]) \<or> (c, upper_char c) \<in> set upper_special"
proof (cases "find (in_run c) upper_runs")
  case (Some r)
  then show ?thesis
    by (cases r) (simp add: upper_char_def)
next
  case None
  show ?thesis
  proof (cases "map_of upper_special c")
    case n: None
    with None show ?thesis by (simp add: upper_char_def)
  next
    case (Some u)
    with None have "upper_char c = u" by (simp add: upper_char_def)
    with map_of_SomeD [OF Some] show ?thesis by simp
  qed
qed

lemma symbol_of_normalized:
  assumes "c \<noteq> 0xFB05" and "c \<noteq> 0xFB06"
  shows "alphabet_symbol_of c = spec_normalize_char c"
proof -
  consider a where "upper_char c = [a]"
    | "(c, upper_char c) \<in> set upper_special" "\<not> (\<exists>a. upper_char c = [a])"
    using upper_char_cases by blast
  then show ?thesis
  proof cases
    case 1
    then show ?thesis
      by (simp add: symbol_of_single spec_normalize_char_def)
  next
    case 2
    from special_contained 2(1) assms have nc: "\<not> str_contains ALPHABET (upper_char c)"
      by (auto simp: list_all_iff)
    from 2(2) have "length (upper_char c) \<noteq> Suc 0"
      by (cases "upper_char c") auto
    with nc show ?thesis
      using space_index space_nth
      by (simp add: alphabet_symbol_of_def char_to_index_def str_upper_def spec_normalize_char_def cps_def
          Let_def)
  qed
qed

lemma compute_char_index_range:
  "compute_char_index L code key = Inr idx \<Longrightarrow> 0 \<le> idx \<and> idx \<le> 28"
  by (auto simp: compute_char_index_def ALPHABET_SIZE_29 Let_def split: sum.splits)

lemma py_range_set: "set (py_range ALPHABET_SIZE) = {0..28}"
proof -
  have "int ` {0..<29} = {0..<29}"
    using image_int_atLeastLessThan [of 0 29] by simp
  also have "\<dots> = {0..28::int}"
    by auto
  finally show ?thesis
    by (simp add: py_range_def ALPHABET_SIZE_29)
qed

lemma str_int_inj:
  assumes "0 \<le> i" "i \<le> 28" "0 \<le> j" "j \<le> 28" "str_int i = str_int j"
  shows "i = j"
proof -
  have "inj_on str_int (set (py_range ALPHABET_SIZE))"
    using bucket_names_distinct by (simp add: distinct_map)
  then have "inj_on str_int {0..28}"
    by (simp only: py_range_set)
  then show ?thesis
    using assms by (auto simp: inj_on_def)
qed

lemma index_images_listed:
  assumes "index_images L key kn files groups st = (Inr g, st2)"
    and "set files \<subseteq> set entries"
    and "listed_ok L key kn entries groups st"
  shows "listed_ok L key kn entries g st2"
  using assms
proof (induction files arbitrary: groups st)
  case Nil
  then show ?case by simp
next
  case (Cons x files)
  obtain name content where x: "x = (name, content)" by (cases x)
  from Cons.prems(2) have sub: "set files \<subseteq> set entries" and mem: "(name, content) \<in> set entries"
    by (simp_all add: x)
  from Cons.prems(1) obtain r where r: "binary_string_of L content = Inr r"
    by (cases "binary_string_of L content") (simp_all add: x)
  show ?case
  proof (cases "r = None \<or> r = Some []")
    case True
    with Cons.prems(1) r have "index_images L key kn files groups st = (Inr g, st2)"
      by (auto simp: x)
    from Cons.IH [OF this sub Cons.prems(3)] show ?thesis .
  next
    case False
    then obtain fp where fp: "r = Some fp" "fp \<noteq> []" by (cases r) auto
    from Cons.prems(1) r fp obtain idx where idx: "compute_char_index L (Some fp) key = Inr idx"
      by (cases "compute_char_index L (Some fp) key") (simp_all add: x)
    define b0 where "b0 = str_int idx"
    define st1 where "st1 = st\<lparr>key_dirs := insert [kn, b0] (key_dirs st)\<rparr>"
    define st' where "st' = (if key_files st1 [kn, b0, name] = None
                             then st1\<lparr>key_files := (key_files st1)([kn, b0, name] \<mapsto> content)\<rparr>
                             else st1)"
    from Cons.prems(1) r fp idx obtain names where names: "groups b0 = Some names"
      by (cases "groups b0") (simp_all add: x b0_def Let_def)
    define g' where "g' = groups(b0 \<mapsto> names @ [name])"
    have step: "index_images L key kn files g' st' = (Inr g, st2)"
      using Cons.prems(1) r fp idx names
      by (auto simp: x b0_def [symmetric] Let_def g'_def st'_def st1_def split: if_splits)
    have grow: "key_files st p \<noteq> None \<Longrightarrow> key_files st' p \<noteq> None" for p
      by (simp add: st'_def st1_def)
    have new: "key_files st' [kn, b0, name] \<noteq> None"
      by (simp add: st'_def st1_def)
    have "listed_ok L key kn entries g' st'"
      unfolding listed_ok_def
    proof (intro allI impI)
      fix b f
      assume f: "f \<in> set (bucket g' b)"
      show "key_files st' [kn, b, f] \<noteq> None
        \<and> (\<exists>content fp idx. (f, content) \<in> set entries
              \<and> binary_string_of L content = Inr (Some fp) \<and> fp \<noteq> []
              \<and> compute_char_index L (Some fp) key = Inr idx \<and> str_int idx = b)"
      proof (cases "b = b0 \<and> f = name")
        case True
        with new mem r fp idx show ?thesis
          by (auto simp: b0_def)
      next
        case False
        with f names have "f \<in> set (bucket groups b)"
          by (auto simp: g'_def bucket_def split: if_splits)
        with Cons.prems(3) grow show ?thesis
          unfolding listed_ok_def by blast
      qed
    qed
    from Cons.IH [OF step sub this] show ?thesis .
  qed
qed

lemma listed_ok_empty: "listed_ok L key kn entries empty_groups st"
proof -
  have "bucket empty_groups b = []" for b
    by (auto simp: bucket_def empty_groups_def split: option.splits dest: map_of_SomeD)
  then show ?thesis by (simp add: listed_ok_def)
qed

lemma list_image_files_subset: "set (list_image_files entries) \<subseteq> set entries"
  by (auto simp: list_image_files_def glob_ext_def)

lemma fresh_build_consistent:
  assumes "initialize_key_mapping L st key = (Inr (m, True), st')"
    and "raw_img st = Some entries"
    and "copies_keep_fingerprint L (safe_key_name L key) entries st'"
  shows "mapping_consistent L key (safe_key_name L key) m st'"
proof -
  define kn where "kn = safe_key_name L key"
  have none: "mapping_files st kn = None"
    using assms(1) by (cases "mapping_files st kn") (simp_all add: initialize_key_mapping_def Let_def kn_def)
  define st1 where "st1 = st\<lparr>key_dirs := insert [kn] (key_dirs st)\<rparr>"
  obtain r st2 where i: "index_images L key kn (list_image_files entries) empty_groups st1 = (r, st2)"
    by (cases "index_images L key kn (list_image_files entries) empty_groups st1")
  from assms(1,2) none i have r: "r = Inr m"
    and st': "st' = st2\<lparr>mapping_files := (mapping_files st2)(kn \<mapsto> m)\<rparr>"
    by (cases r; simp add: initialize_key_mapping_def Let_def st1_def kn_def)+
  from index_images_listed [OF i [unfolded r] list_image_files_subset listed_ok_empty]
  have ok: "listed_ok L key kn entries m st2" .
  show ?thesis
    unfolding mapping_consistent_def kn_def [symmetric]
  proof (intro allI impI)
    fix b f
    assume "f \<in> set (bucket m b)"
    with ok obtain c content fp idx where
      c: "key_files st2 [kn, b, f] = Some c" and e: "(f, content) \<in> set entries"
      and fp: "binary_string_of L content = Inr (Some fp)" "fp \<noteq> []"
        "compute_char_index L (Some fp) key = Inr idx" "str_int idx = b"
      unfolding listed_ok_def by blast
    from c have c': "key_files st' [kn, b, f] = Some c" by (simp add: st')
    with assms(3) e have "binary_string_of L c = binary_string_of L content"
      unfolding copies_keep_fingerprint_def kn_def [symmetric] by blast
    with c' fp show "\<exists>content fp idx. key_files st' [kn, b, f] = Some content
           \<and> binary_string_of L content = Inr (Some fp) \<and> fp \<noteq> []
           \<and> compute_char_index L (Some fp) key = Inr idx \<and> str_int idx = b"
      by auto
  qed
qed

lemma encrypt_chars_trace:
  assumes "encrypt_chars m kn tx used rng = Inr urls"
    and "\<forall>c\<in>set tx. \<forall>i. char_to_index [c] = Inr i \<longrightarrow> bucket m (str_int i) \<noteq> []"
  shows "list_all2 (\<lambda>c u. \<exists>i f. char_to_index [c] = Inr i \<and> u = (kn, str_int i, f)
                          \<and> f \<in> set (bucket m (str_int i))) tx urls"
  using assms
proof (induction tx arbitrary: used rng urls)
  case Nil
  then show ?case by simp
next
  case (Cons ch tx)
  from Cons.prems(1) obtain idx where idx: "char_to_index [ch] = Inr idx"
    by (cases "char_to_index [ch]") simp_all
  define b0 where "b0 = str_int idx"
  have step: "encrypt_chars m kn (ch # tx) used rng =
      (if bucket m b0 = [] then encrypt_chars m kn tx used rng
       else case used b0 of
              None \<Rightarrow> Inl KeyError
            | Some U \<Rightarrow>
                (case random_choice rng
                        (if filter (\<lambda>f. f \<notin> U) (bucket m b0) \<noteq> []
                         then filter (\<lambda>f. f \<notin> U) (bucket m b0) else bucket m b0) of
                   Inl e \<Rightarrow> Inl e
                 | Inr (f, rng') \<Rightarrow>
                     (case encrypt_chars m kn tx (used(b0 \<mapsto> insert f U)) rng' of
                        Inl e \<Rightarrow> Inl e
                      | Inr urls \<Rightarrow> Inr ((kn, b0, f) # urls))))"
    unfolding b0_def bucket_def encrypt_chars.simps idx Let_def by simp
  note prem = Cons.prems(1) [unfolded step]
  from Cons.prems(2) idx have ne: "bucket m b0 \<noteq> []"
    by (simp add: b0_def)
  from Cons.prems(2) have rest: "\<forall>c\<in>set tx. \<forall>i. char_to_index [c] = Inr i \<longrightarrow> bucket m (str_int i) \<noteq> []"
    by simp
  from prem ne obtain U0 where U0: "used b0 = Some U0"
    by (cases "used b0") simp_all
  define seq where "seq = (if filter (\<lambda>f. f \<notin> U0) (bucket m b0) \<noteq> [] then filter (\<lambda>f. f \<notin> U0) (bucket m b0)
                            else bucket m b0)"
  from prem ne U0 obtain f0 rng' where ch: "random_choice rng seq = Inr (f0, rng')"
    by (cases "random_choice rng seq") (auto simp: seq_def)
  from prem ne U0 ch obtain urls' where
    rec: "encrypt_chars m kn tx (used(b0 \<mapsto> insert f0 U0)) rng' = Inr urls'"
    and urls: "urls = (kn, b0, f0) # urls'"
    by (cases "encrypt_chars m kn tx (used(b0 \<mapsto> insert f0 U0)) rng'")
      (auto simp: seq_def)
  have "f0 \<in> set seq" using ch by (rule random_choice_in)
  then have f0: "f0 \<in> set (bucket m b0)"
    by (auto simp: seq_def split: if_splits)
  from Cons.IH [OF rec rest] idx f0 show ?case
    by (simp add: urls b0_def)
qed

lemma decrypt_files_symbols:
  assumes "list_all2 (\<lambda>c img. \<exists>fp i. binary_string_of L img = Inr (Some fp) \<and> fp \<noteq> []
                          \<and> compute_char_index L (Some fp) key = Inr i \<and> char_to_index [c] = Inr i) tx imgs"
  shows "decrypt_files L key imgs = Inr (map alphabet_symbol_of tx)"
  using assms
proof (induction tx imgs rule: list_all2_induct)
  case Nil
  then show ?case by simp
next
  case (Cons c tx img imgs)
  then obtain fp i where fp: "binary_string_of L img = Inr (Some fp)" "fp \<noteq> []"
    and i: "compute_char_index L (Some fp) key = Inr i" "char_to_index [c] = Inr i"
    by blast
  from compute_char_index_range [OF i(1)] have "i mod 29 = i"
    by simp
  with index_to_char_value [of i] have "index_to_char i = Inr [ALPHABET ! nat i]"
    by simp
  with fp i Cons.IH show ?case
    by (simp add: alphabet_symbol_of_def)
qed

lemma list_all2_fetch:
  assumes "list_all2 R tx urls" and "\<And>c u. R c u \<Longrightarrow> \<exists>img. S u = Some img \<and> T c img"
  shows "\<exists>imgs. map S urls = map Some imgs \<and> list_all2 T tx imgs"
  using assms(1)
proof (induction tx urls rule: list_all2_induct)
  case Nil
  then show ?case by simp
next
  case (Cons c tx u urls)
  from assms(2) [OF Cons.hyps(1)] obtain img where img: "S u = Some img" "T c img" by blast
  from Cons.IH obtain imgs where "map S urls = map Some imgs" "list_all2 T tx imgs" by blast
  with img have "map S (u # urls) = map Some (img # imgs) \<and> list_all2 T (c # tx) (img # imgs)"
    by simp
  then show ?case by blast
qed

lemma sample_index_t:
  "compute_char_index sample_lib (Some (cps ''00000000000000000000000000000000'')) (cps ''T'') = Inr 26"
  "compute_char_index sample_lib (Some (cps ''01000000000000000000000000000000'')) (cps ''T'') = Inr 27"
  by (simp_all add: compute_char_index_def cps_def utf8_char_def sample_lib_def int_from_bytes_big_def
      ALPHABET_SIZE_29)

lemma str_int_26_27: "str_int 26 = cps ''26''" "str_int 27 = cps ''27''"
  by (simp_all add: str_int_def digits.simps cps_def)

lemma empty_groups_26_27: "empty_groups (cps ''26'') = Some []" "empty_groups (cps ''27'') = Some []"
  unfolding empty_groups_def
  by (simp_all add: py_range_def ALPHABET_SIZE_29 upt_rec str_int_def digits.simps cps_def)

lemma sample_safe_key_name_t: "safe_key_name sample_lib (cps ''T'') = cps ''T''"
  by (simp add: safe_key_name_def sample_lib_def cps_def)

lemma sample_index_images_t:
  assumes "key_files st = Map.empty"
  shows "\<exists>st2. index_images sample_lib (cps ''T'') (cps ''T'') (list_image_files sample_corpus) empty_groups st
           = (Inr sample_mapping_t, st2)
         \<and> mapping_files st2 = mapping_files st \<and> key_files st2 = sample_files_t"
proof -
  have ne: "cps ''00000000000000000000000000000000'' \<noteq> []" "cps ''01000000000000000000000000000000'' \<noteq> []"
    by (simp_all add: cps_def)
  have names: "cps ''26'' \<noteq> cps ''27''" "cps ''a.jpg'' \<noteq> cps ''a2.jpg''"
    by (simp_all add: cps_def)
  have bad: "binary_string_of sample_lib [7] = Inr None"
    by (rule fingerprint_unreadable) simp
  show ?thesis
    unfolding sample_image_files
    using ne names assms
    by (simp add: fingerprint_a fingerprint_b bad sample_index_t str_int_26_27
        empty_groups_26_27 sample_mapping_t_def sample_files_t_def Let_def fun_upd_twist)
qed

lemma sample_build_t:
  "\<exists>st'. initialize_key_mapping sample_lib sample_store (cps ''T'') = (Inr (sample_mapping_t, True), st')
         \<and> key_files st' = sample_files_t"
proof -
  define st1 where "st1 = sample_store\<lparr>key_dirs := insert [cps ''T''] (key_dirs sample_store)\<rparr>"
  have kf: "key_files st1 = Map.empty"
    by (simp add: st1_def sample_store_def)
  from sample_index_images_t [OF kf] obtain st2 where
    i: "index_images sample_lib (cps ''T'') (cps ''T'') (list_image_files sample_corpus) empty_groups st1
          = (Inr sample_mapping_t, st2)"
    and f: "key_files st2 = sample_files_t"
    by blast
  have "initialize_key_mapping sample_lib sample_store (cps ''T'')
          = (Inr (sample_mapping_t, True), st2\<lparr>mapping_files := (mapping_files st2)(cps ''T'' \<mapsto> sample_mapping_t)\<rparr>)"
    using i by (simp add: initialize_key_mapping_def sample_safe_key_name_t Let_def st1_def [symmetric])
       (simp add: sample_store_def st1_def)
  then show ?thesis
    using f by simp
qed

lemma char_to_index_comma_space: "char_to_index [44] = Inr 27" "char_to_index [32] = Inr 26"
  using upper_char_below_a [of 44] upper_char_below_a [of 32]
  by (simp_all add: char_to_index_def str_upper_def str_contains_def str_index_def ALPHABET_def cps_def)

lemma symbol_comma_space: "alphabet_symbol_of 44 = [44]" "alphabet_symbol_of 32 = [32]"
  by (simp_all add: alphabet_symbol_of_def char_to_index_comma_space ALPHABET_def cps_def)

lemma normalize_comma_space: "spec_normalize_char 44 = [44]" "spec_normalize_char 32 = [32]"
  using upper_char_below_a [of 44] upper_char_below_a [of 32]
  by (simp_all add: spec_normalize_char_def ALPHABET_def cps_def)

lemma sample_buckets_t:
  "bucket sample_mapping_t (cps ''26'') = [cps ''a.jpg'', cps ''a2.jpg'']"
  "bucket sample_mapping_t (cps ''27'') = [cps ''b.png'']"
  by (simp_all add: bucket_def sample_mapping_t_def cps_def)

lemma empty_used_26_27: "empty_used (cps ''26'') = Some {}" "empty_used (cps ''27'') = Some {}"
  unfolding empty_used_def
  by (simp_all add: py_range_def ALPHABET_SIZE_29 upt_rec str_int_def digits.simps cps_def)

lemma sample_keep_fingerprint:
  "key_files st' = sample_files_t \<Longrightarrow> copies_keep_fingerprint sample_lib (cps ''T'') sample_corpus st'"
  by (simp add: copies_keep_fingerprint_def sample_corpus_def sample_files_t_def cps_def)

lemma sample_decrypt_b: "decrypt_files sample_lib (cps ''T'') [image_b] = Inr [[44]]"
  by (simp add: fingerprint_b sample_index_t index_to_char_value ALPHABET_def) (simp add: cps_def)

lemma sample_encrypt_t:
  "encrypt_chars sample_mapping_t (cps ''T'') [44, 32, 44] empty_used (\<lambda>k. k)
     = Inr [(cps ''T'', cps ''27'', cps ''b.png''), (cps ''T'', cps ''26'', cps ''a2.jpg''),
            (cps ''T'', cps ''27'', cps ''b.png'')]"
proof -
  have m: "sample_mapping_t (cps ''26'') = Some [cps ''a.jpg'', cps ''a2.jpg'']"
    "sample_mapping_t (cps ''27'') = Some [cps ''b.png'']"
    by (simp_all add: sample_mapping_t_def cps_def)
  have ne: "cps ''a.jpg'' \<noteq> cps ''a2.jpg''" "cps ''26'' \<noteq> cps ''27''"
    by (simp_all add: cps_def)
  show ?thesis
    using ne
    by (simp add: char_to_index_comma_space str_int_26_27 m empty_used_26_27 random_choice_def Let_def)
qed

lemma sample_encrypt_t_comma:
  "encrypt_chars sample_mapping_t (cps ''T'') [44] empty_used (\<lambda>k. k)
     = Inr [(cps ''T'', cps ''27'', cps ''b.png'')]"
proof -
  have m: "sample_mapping_t (cps ''27'') = Some [cps ''b.png'']"
    by (simp add: sample_mapping_t_def cps_def)
  show ?thesis
    by (simp add: char_to_index_comma_space str_int_26_27 m empty_used_26_27 random_choice_def Let_def)
qed

text \<open>
  C2 (as amended). Let \<open>api_encrypt_text\<close> answer a request with the image references
  \<open>urls\<close>, let no character of the stripped text meet an empty bucket, and let the
  mapping be built in this call with every stored copy keeping the fingerprint of its
  corpus image (or be a stored mapping that is consistent with the key). Then the files
  at \<open>urls\<close> exist, and \<open>api_decrypt_images\<close> with the same key answers, for these
  files in this order, with the text whose characters are the symbols the code assigns
  to the characters of the stripped text; when the stripped text holds neither U+FB05
  nor U+FB06, this is its alphabet-normalised form.
\<close>

theorem encrypt_decrypt_roundtrip:
  assumes enc: "api_encrypt_text L rng st \<lparr>req_key = Some k, req_text = Some t\<rparr> = (Ok200 (urls, built), st')"
    and init: "initialize_key_mapping L st (str_strip k) = (Inr (m, built), st')"
    and nonempty: "\<forall>c\<in>set (str_strip t). \<forall>i. char_to_index [c] = Inr i \<longrightarrow> bucket m (str_int i) \<noteq> []"
    and fresh: "built \<Longrightarrow> \<exists>entries. raw_img st = Some entries
                    \<and> copies_keep_fingerprint L (safe_key_name L (str_strip k)) entries st'"
    and loaded: "\<not> built \<Longrightarrow> mapping_consistent L (str_strip k) (safe_key_name L (str_strip k)) m st'"
  shows "\<exists>imgs. map (\<lambda>(kn, b, f). key_files st' [kn, b, f]) urls = map Some imgs
          \<and> api_decrypt_images L (Some k) imgs = Ok200 (concat (map alphabet_symbol_of (str_strip t)))
          \<and> ((\<forall>c\<in>set (str_strip t). c \<noteq> 0xFB05 \<and> c \<noteq> 0xFB06)
                \<longrightarrow> concat (map alphabet_symbol_of (str_strip t)) = spec_normalized (str_strip t))"
proof -
  define key where "key = str_strip k"
  define tx where "tx = str_strip t"
  define kn where "kn = safe_key_name L key"
  from enc have ne: "key \<noteq> []" "tx \<noteq> []"
    by (auto simp: api_encrypt_text_def Let_def key_def tx_def split: if_splits)
  from enc ne init have chars: "encrypt_chars m kn tx empty_used rng = Inr urls"
    by (auto simp: api_encrypt_text_def Let_def key_def tx_def kn_def split: sum.splits)
  have cons: "mapping_consistent L key kn m st'"
  proof (cases built)
    case True
    with fresh obtain entries where "raw_img st = Some entries"
      "copies_keep_fingerprint L kn entries st'"
      unfolding key_def kn_def by blast
    with init True show ?thesis
      unfolding key_def kn_def by (intro fresh_build_consistent) simp_all
  next
    case False
    with loaded show ?thesis unfolding key_def kn_def by simp
  qed
  define R where "R = (\<lambda>c (u::image_ref). \<exists>i f. char_to_index [c] = Inr i \<and> u = (kn, str_int i, f)
                          \<and> f \<in> set (bucket m (str_int i)))"
  define S where "S = (\<lambda>u::image_ref. case u of (kn, b, f) \<Rightarrow> key_files st' [kn, b, f])"
  define T where "T = (\<lambda>c img. \<exists>fp i. binary_string_of L img = Inr (Some fp) \<and> fp \<noteq> []
                          \<and> compute_char_index L (Some fp) key = Inr i \<and> char_to_index [c] = Inr i)"
  from encrypt_chars_trace [OF chars nonempty [folded tx_def]]
  have trace: "list_all2 R tx urls"
    unfolding R_def .
  have fetch: "\<exists>img. S u = Some img \<and> T c img" if "R c u" for c u
  proof -
    from that obtain i f where i: "char_to_index [c] = Inr i" and u: "u = (kn, str_int i, f)"
      and f: "f \<in> set (bucket m (str_int i))"
      unfolding R_def by blast
    from cons f obtain content fp idx where
      c: "key_files st' [kn, str_int i, f] = Some content"
      and fp: "binary_string_of L content = Inr (Some fp)" "fp \<noteq> []"
      and idx: "compute_char_index L (Some fp) key = Inr idx" "str_int idx = str_int i"
      unfolding mapping_consistent_def by blast
    from char_to_index_total [of "[c]"] i have ir: "0 \<le> i" "i \<le> 28" by auto
    from compute_char_index_range [OF idx(1)] have "0 \<le> idx" "idx \<le> 28" by simp_all
    with ir idx(2) have "idx = i" by (intro str_int_inj)
    with c fp idx i show ?thesis by (auto simp: u S_def T_def)
  qed
  from list_all2_fetch [of R tx urls S T, OF trace fetch] obtain imgs where
    imgs: "map S urls = map Some imgs" and rel': "list_all2 T tx imgs"
    by blast
  have rel: "list_all2 (\<lambda>c img. \<exists>fp i. binary_string_of L img = Inr (Some fp) \<and> fp \<noteq> []
                          \<and> compute_char_index L (Some fp) key = Inr i \<and> char_to_index [c] = Inr i) tx imgs"
    using rel' unfolding T_def .
  from rel ne have "imgs \<noteq> []"
    by (auto dest: list_all2_lengthD)
  with ne decrypt_files_symbols [OF rel]
  have dec: "api_decrypt_images L (Some k) imgs = Ok200 (concat (map alphabet_symbol_of tx))"
    by (simp add: api_decrypt_images_def Let_def key_def)
  have norm: "(\<forall>c\<in>set tx. c \<noteq> 0xFB05 \<and> c \<noteq> 0xFB06)
                \<longrightarrow> concat (map alphabet_symbol_of tx) = spec_normalized tx"
  proof
    assume "\<forall>c\<in>set tx. c \<noteq> 0xFB05 \<and> c \<noteq> 0xFB06"
    then have "map alphabet_symbol_of tx = map spec_normalize_char tx"
      by (intro map_cong) (simp_all add: symbol_of_normalized)
    then show "concat (map alphabet_symbol_of tx) = spec_normalized tx"
      by (simp only: spec_normalized_def)
  qed
  from imgs [unfolded S_def] dec norm show ?thesis
    unfolding tx_def by blast
qed

theorem encrypt_decrypt_roundtrip_witness:
  "\<exists>st'. api_encrypt_text sample_lib (\<lambda>k. k) sample_store
             \<lparr>req_key = Some (cps ''T''), req_text = Some (cps '', ,'')\<rparr>
           = (Ok200 ([(cps ''T'', cps ''27'', cps ''b.png''), (cps ''T'', cps ''26'', cps ''a2.jpg''),
                      (cps ''T'', cps ''27'', cps ''b.png'')], True), st')
         \<and> initialize_key_mapping sample_lib sample_store (str_strip (cps ''T''))
             = (Inr (sample_mapping_t, True), st')
         \<and> copies_keep_fingerprint sample_lib (safe_key_name sample_lib (str_strip (cps ''T''))) sample_corpus st'
         \<and> map (\<lambda>(kn, b, f). key_files st' [kn, b, f])
               [(cps ''T'', cps ''27'', cps ''b.png''), (cps ''T'', cps ''26'', cps ''a2.jpg''),
                (cps ''T'', cps ''27'', cps ''b.png'')]
             = map Some [image_b, image_a, image_b]
         \<and> api_decrypt_images sample_lib (Some (cps ''T'')) [image_b, image_a, image_b] = Ok200 (cps '', ,'')
         \<and> spec_normalized (str_strip (cps '', ,'')) = cps '', ,''"
proof -
  define urls where "urls = [(cps ''T'', cps ''27'', cps ''b.png''), (cps ''T'', cps ''26'', cps ''a2.jpg''),
                      (cps ''T'', cps ''27'', cps ''b.png'')]"
  have sk: "str_strip (cps ''T'') = cps ''T''" and st: "str_strip (cps '', ,'') = [44, 32, 44]"
    by (simp_all add: str_strip_def py_isspace_def cps_def)
  from sample_build_t obtain st' where
    init: "initialize_key_mapping sample_lib sample_store (cps ''T'') = (Inr (sample_mapping_t, True), st')"
    and files: "key_files st' = sample_files_t"
    by blast
  have ne: "cps ''T'' \<noteq> []"
    by (simp add: cps_def)
  have enc: "api_encrypt_text sample_lib (\<lambda>k. k) sample_store
               \<lparr>req_key = Some (cps ''T''), req_text = Some (cps '', ,'')\<rparr>
             = (Ok200 (urls, True), st')"
    using ne by (simp add: api_encrypt_text_def sk st init sample_safe_key_name_t sample_encrypt_t urls_def Let_def
        del: encrypt_chars.simps)
  have init': "initialize_key_mapping sample_lib sample_store (str_strip (cps ''T''))
                 = (Inr (sample_mapping_t, True), st')"
    using init by (simp add: sk)
  have nonempty: "\<forall>c\<in>set (str_strip (cps '', ,'')). \<forall>i. char_to_index [c] = Inr i
                    \<longrightarrow> bucket sample_mapping_t (str_int i) \<noteq> []"
    by (auto simp: st char_to_index_comma_space str_int_26_27 sample_buckets_t)
  have keep: "copies_keep_fingerprint sample_lib (safe_key_name sample_lib (str_strip (cps ''T''))) sample_corpus st'"
    using sample_keep_fingerprint [OF files] by (simp add: sk sample_safe_key_name_t)
  have fresh: "True \<Longrightarrow> \<exists>entries. raw_img sample_store = Some entries
                 \<and> copies_keep_fingerprint sample_lib (safe_key_name sample_lib (str_strip (cps ''T''))) entries st'"
    using keep by (simp add: sample_store_def)
  have loaded: "\<not> True \<Longrightarrow> mapping_consistent sample_lib (str_strip (cps ''T''))
                   (safe_key_name sample_lib (str_strip (cps ''T''))) sample_mapping_t st'"
    by simp
  from encrypt_decrypt_roundtrip [OF enc init' nonempty fresh loaded] obtain imgs where
    imgs: "map (\<lambda>(kn, b, f). key_files st' [kn, b, f]) urls = map Some imgs"
    and dec: "api_decrypt_images sample_lib (Some (cps ''T'')) imgs
                = Ok200 (concat (map alphabet_symbol_of (str_strip (cps '', ,''))))"
    and norm: "(\<forall>c\<in>set (str_strip (cps '', ,'')). c \<noteq> 0xFB05 \<and> c \<noteq> 0xFB06)
                \<longrightarrow> concat (map alphabet_symbol_of (str_strip (cps '', ,''))) = spec_normalized (str_strip (cps '', ,''))"
    by blast
  have "map (\<lambda>(kn, b, f). key_files st' [kn, b, f]) urls = map Some [image_b, image_a, image_b]"
    by (simp add: urls_def files sample_files_t_def cps_def)
  with imgs have i: "imgs = [image_b, image_a, image_b]"
    by (metis map_injective option.inject injI)
  have sym: "concat (map alphabet_symbol_of [44, 32, 44]) = cps '', ,''"
    by (simp add: symbol_comma_space cps_def)
  from norm [unfolded st sym] have n: "spec_normalized [44, 32, 44] = cps '', ,''"
    by simp
  from enc init' keep imgs [unfolded i] dec [unfolded i st sym] n show ?thesis
    unfolding urls_def st by blast
qed

text \<open>
  The claim C2 as stated, for every text, fails for a text that starts with a space:
  \<open>api_encrypt_text\<close> strips the text, so the image of the leading space is missing
  and the decoded text is shorter than the normalised text, although the buckets of the
  space and of the comma are not empty.
\<close>

theorem roundtrip_leading_space:
  "\<exists>st'. api_encrypt_text sample_lib (\<lambda>k. k) sample_store
             \<lparr>req_key = Some (cps ''T''), req_text = Some (cps '' ,'')\<rparr>
           = (Ok200 ([(cps ''T'', cps ''27'', cps ''b.png'')], True), st')
         \<and> initialize_key_mapping sample_lib sample_store (cps ''T'') = (Inr (sample_mapping_t, True), st')
         \<and> bucket sample_mapping_t (cps ''26'') \<noteq> [] \<and> bucket sample_mapping_t (cps ''27'') \<noteq> []
         \<and> key_files st' [cps ''T'', cps ''27'', cps ''b.png''] = Some image_b
         \<and> api_decrypt_images sample_lib (Some (cps ''T'')) [image_b] = Ok200 (cps '','')
         \<and> spec_normalized (cps '' ,'') = cps '' ,''
         \<and> cps '','' \<noteq> cps '' ,''"
proof -
  have sk: "str_strip (cps ''T'') = cps ''T''" and st: "str_strip (cps '' ,'') = [44]"
    by (simp_all add: str_strip_def py_isspace_def cps_def)
  from sample_build_t obtain st' where
    init: "initialize_key_mapping sample_lib sample_store (cps ''T'') = (Inr (sample_mapping_t, True), st')"
    and files: "key_files st' = sample_files_t"
    by blast
  have ne: "cps ''T'' \<noteq> []"
    by (simp add: cps_def)
  have enc: "api_encrypt_text sample_lib (\<lambda>k. k) sample_store
               \<lparr>req_key = Some (cps ''T''), req_text = Some (cps '' ,'')\<rparr>
             = (Ok200 ([(cps ''T'', cps ''27'', cps ''b.png'')], True), st')"
    using ne by (simp add: api_encrypt_text_def sk st init sample_safe_key_name_t sample_encrypt_t_comma Let_def
        del: encrypt_chars.simps)
  have b: "bucket sample_mapping_t (cps ''26'') \<noteq> []" "bucket sample_mapping_t (cps ''27'') \<noteq> []"
    by (simp_all add: sample_buckets_t)
  have f: "key_files st' [cps ''T'', cps ''27'', cps ''b.png''] = Some image_b"
    by (simp add: files sample_files_t_def)
  have dec: "api_decrypt_images sample_lib (Some (cps ''T'')) [image_b] = Ok200 (cps '','')"
    using ne by (simp add: api_decrypt_images_def sk sample_decrypt_b Let_def del: decrypt_files.simps)
      (simp add: cps_def)
  have n: "spec_normalized (cps '' ,'') = cps '' ,''"
    by (simp add: spec_normalized_def cps_def normalize_comma_space)
  have d: "cps '','' \<noteq> cps '' ,''"
    by (simp add: cps_def)
  from enc init b f dec n d show ?thesis by blast
qed

end
